theory Spec2Isabelle
  imports Main "HOL-Library.Sublist"
begin

section \<open>Credential normalizer (\<open>sanitizeKey\<close>)\<close>

text \<open>
  A Go string is a sequence of bytes, here an Isabelle \<open>string\<close>; a byte is read as a
  number with \<open>of_char\<close> and written with \<open>char_of\<close>. \<open>sanitizeKey\<close> hands its argument to
  \<open>strings.Map\<close>, which walks the string character by character as \<open>range\<close> does, calls
  the function on each code point, and writes the answers that are not negative with
  \<open>WriteRune\<close>. \<open>strings.Map\<close>, the UTF-8 decoding and encoding of \<open>unicode/utf8\<close> and
  \<open>unicode.IsSpace\<close> belong to Go's standard library; they are written out here after
  their documentation.

  Decoding: a byte below \<open>0x80\<close> is a character; the bytes \<open>0xC2\<close> to \<open>0xDF\<close> start a
  character of two bytes, \<open>0xE0\<close> to \<open>0xEF\<close> one of three, \<open>0xF0\<close> to \<open>0xF4\<close> one of four. The
  bytes that follow lie between \<open>0x80\<close> and \<open>0xBF\<close>, the second one in a narrower range
  after \<open>0xE0\<close>, \<open>0xED\<close>, \<open>0xF0\<close> and \<open>0xF4\<close> (no overlong form, no surrogate, nothing
  above \<open>U+10FFFF\<close>). Where no character starts, the walk yields \<open>U+FFFD\<close> and moves on
  by one byte.
\<close>

definition RuneError :: nat where
  "RuneError = 0xFFFD"

definition cont :: "nat \<Rightarrow> bool" where
  "cont b \<longleftrightarrow> 0x80 \<le> b \<and> b \<le> 0xBF"

definition second3 :: "nat \<Rightarrow> nat \<Rightarrow> bool" where
  "second3 b0 b1 \<longleftrightarrow>
     (if b0 = 0xE0 then 0xA0 \<le> b1 \<and> b1 \<le> 0xBF
      else if b0 = 0xED then 0x80 \<le> b1 \<and> b1 \<le> 0x9F
      else cont b1)"

definition second4 :: "nat \<Rightarrow> nat \<Rightarrow> bool" where
  "second4 b0 b1 \<longleftrightarrow>
     (if b0 = 0xF0 then 0x90 \<le> b1 \<and> b1 \<le> 0xBF
      else if b0 = 0xF4 then 0x80 \<le> b1 \<and> b1 \<le> 0x8F
      else cont b1)"

text \<open>The first character of a string and the bytes after it, if a character starts it.\<close>

fun decodeRune :: "nat list \<Rightarrow> (nat \<times> nat list) option" where
  "decodeRune [] = None"
| "decodeRune (b0 # bs) =
     (if b0 < 0x80 then Some (b0, bs)
      else if 0xC2 \<le> b0 \<and> b0 \<le> 0xDF then
        (case bs of
           b1 # rest \<Rightarrow>
             if cont b1 then Some ((b0 mod 32) * 64 + b1 mod 64, rest) else None
         | _ \<Rightarrow> None)
      else if 0xE0 \<le> b0 \<and> b0 \<le> 0xEF then
        (case bs of
           b1 # b2 # rest \<Rightarrow>
             if second3 b0 b1 \<and> cont b2
             then Some ((b0 mod 16) * 4096 + (b1 mod 64) * 64 + b2 mod 64, rest) else None
         | _ \<Rightarrow> None)
      else if 0xF0 \<le> b0 \<and> b0 \<le> 0xF4 then
        (case bs of
           b1 # b2 # b3 # rest \<Rightarrow>
             if second4 b0 b1 \<and> cont b2 \<and> cont b3
             then Some ((b0 mod 8) * 262144 + (b1 mod 64) * 4096 + (b2 mod 64) * 64 + b3 mod 64,
                        rest)
             else None
         | _ \<Rightarrow> None)
      else None)"

text \<open>The code points that \<open>range\<close> yields.\<close>

function runes :: "nat list \<Rightarrow> nat list" where
  "runes [] = []"
| "runes (b # bs) =
     (case decodeRune (b # bs) of
        Some (r, rest) \<Rightarrow> r # runes rest
      | None \<Rightarrow> RuneError # runes bs)"
  by pat_completeness auto
termination
proof (relation "measure length")
  show "wf (measure length)" by simp
next
  fix b :: nat and bs x2 r rest
  assume "decodeRune (b # bs) = Some x2" "(r, rest) = x2"
  then show "(rest, b # bs) \<in> measure length"
    by (auto split: if_splits list.splits)
next
  fix b :: nat and bs
  show "(bs, b # bs) \<in> measure length" by simp
qed

text \<open>
  \<open>utf8.AppendRune\<close>, which \<open>WriteRune\<close> uses: one to four bytes; a surrogate or a number
  above \<open>U+10FFFF\<close> is written as \<open>U+FFFD\<close>.
\<close>

definition encodeRune :: "nat \<Rightarrow> nat list" where
  "encodeRune r =
     (if r \<le> 0x7F then [r]
      else if r \<le> 0x7FF then [0xC0 + r div 64, 0x80 + r mod 64]
      else if r > 0x10FFFF \<or> (0xD800 \<le> r \<and> r \<le> 0xDFFF) then [0xEF, 0xBF, 0xBD]
      else if r \<le> 0xFFFF
        then [0xE0 + r div 4096, 0x80 + r div 64 mod 64, 0x80 + r mod 64]
      else [0xF0 + r div 262144, 0x80 + r div 4096 mod 64, 0x80 + r div 64 mod 64,
            0x80 + r mod 64])"

definition strings_Map :: "(nat \<Rightarrow> int) \<Rightarrow> string \<Rightarrow> string" where
  "strings_Map mapping s =
     map char_of
       (concat (map (\<lambda>c. let r = mapping c in if r < 0 then [] else encodeRune (nat r))
                    (runes (map of_char s))))"

text \<open>
  In Latin-1 the space characters are tab, line feed, vertical tab, form feed, carriage
  return, space, NEL and NBSP; above Latin-1 they are the code points with the Unicode
  property White_Space.
\<close>

definition unicode_IsSpace :: "nat \<Rightarrow> bool" where
  "unicode_IsSpace r =
     (if r \<le> 0xFF
      then r = 0x09 \<or> r = 0x0A \<or> r = 0x0B \<or> r = 0x0C \<or> r = 0x0D \<or> r = 0x20
           \<or> r = 0x85 \<or> r = 0xA0
      else r = 0x1680 \<or> (0x2000 \<le> r \<and> r \<le> 0x200A) \<or> r = 0x2028 \<or> r = 0x2029
           \<or> r = 0x202F \<or> r = 0x205F \<or> r = 0x3000)"

definition sanitizeKey :: "string \<Rightarrow> string" where
  "sanitizeKey k = strings_Map (\<lambda>r. if unicode_IsSpace r then - 1 else int r) k"

text \<open>
  For the statements: the code points of a string, the scalar values (what a well-formed
  string can hold), and \<open>utf8.ValidString\<close>: every byte belongs to a well-formed
  character.
\<close>

definition stringRunes :: "string \<Rightarrow> nat list" where
  "stringRunes s = runes (map of_char s)"

definition scalar :: "nat \<Rightarrow> bool" where
  "scalar r \<longleftrightarrow> r \<le> 0x10FFFF \<and> \<not> (0xD800 \<le> r \<and> r \<le> 0xDFFF)"

function validUTF8 :: "nat list \<Rightarrow> bool" where
  "validUTF8 [] = True"
| "validUTF8 (b # bs) =
     (case decodeRune (b # bs) of
        Some (r, rest) \<Rightarrow> validUTF8 rest
      | None \<Rightarrow> False)"
  by pat_completeness auto
termination
proof (relation "measure length")
  show "wf (measure length)" by simp
next
  fix b :: nat and bs x2 r rest
  assume "decodeRune (b # bs) = Some x2" "(r, rest) = x2"
  then show "(rest, b # bs) \<in> measure length"
    by (auto split: if_splits list.splits)
qed

definition utf8_ValidString :: "string \<Rightarrow> bool" where
  "utf8_ValidString s = validUTF8 (map of_char s)"


section \<open>Strings and formatting\<close>

text \<open>
  An \<open>error\<close> is modelled by the text that its \<open>Error()\<close> method returns: the retry loop decides on that
  text, and \<open>fmt.Errorf\<close> with \<open>%w\<close> builds the text of the wrapping error by concatenation.
\<close>

fun strings_Contains :: "string \<Rightarrow> string \<Rightarrow> bool" where
  "strings_Contains [] substr = (substr = [])"
| "strings_Contains (c # s) substr = (prefix substr (c # s) \<or> strings_Contains s substr)"

text \<open>\<open>strings.SplitN(s, sep, 2)\<close> for a one-byte separator: cut at the first separator.\<close>

fun strings_SplitN2 :: "string \<Rightarrow> char \<Rightarrow> string list" where
  "strings_SplitN2 s sep =
     (case dropWhile (\<lambda>c. c \<noteq> sep) s of
        [] \<Rightarrow> [s]
      | _ # rest \<Rightarrow> [takeWhile (\<lambda>c. c \<noteq> sep) s, rest])"

definition digit :: "nat \<Rightarrow> char" where
  "digit d = ''0123456789'' ! d"

function itoa :: "nat \<Rightarrow> string" where
  "itoa n = (if n < 10 then [digit n] else itoa (n div 10) @ [digit (n mod 10)])"
  by pat_completeness auto
termination
  by (relation "measure id") auto

declare itoa.simps [simp del]

text \<open>\<open>base64.StdEncoding.EncodeToString\<close>: three bytes become four characters, padded with \<open>=\<close>.\<close>

definition encodeStd :: string where
  "encodeStd = ''ABCDEFGHIJKLMNOPQRSTUVWXYZabcdefghijklmnopqrstuvwxyz0123456789+/''"

fun EncodeToString :: "string \<Rightarrow> string" where
  "EncodeToString (a # b # c # rest) =
     (let n = of_char a * 65536 + of_char b * 256 + (of_char c :: nat)
      in [encodeStd ! (n div 262144), encodeStd ! (n div 4096 mod 64),
          encodeStd ! (n div 64 mod 64), encodeStd ! (n mod 64)] @ EncodeToString rest)"
| "EncodeToString [a, b] =
     (let n = of_char a * 65536 + of_char b * (256 :: nat)
      in [encodeStd ! (n div 262144), encodeStd ! (n div 4096 mod 64),
          encodeStd ! (n div 64 mod 64), CHR ''=''])"
| "EncodeToString [a] =
     (let n = of_char a * (65536 :: nat)
      in [encodeStd ! (n div 262144), encodeStd ! (n div 4096 mod 64), CHR ''='', CHR ''=''])"
| "EncodeToString [] = []"

definition programsURL :: "nat \<Rightarrow> string" where
  "programsURL page =
     ''https://api.hackerone.com/v1/hackers/programs?page[number]='' @ itoa page
       @ ''&page[size]=100''"

definition scopeURL :: "string \<Rightarrow> string" where
  "scopeURL handle =
     ''https://api.hackerone.com/v1/hackers/programs/'' @ handle @ ''/structured_scopes''"


section \<open>The world outside the program\<close>

record request =
  reqMethod :: string
  reqURL :: string
  reqHeader :: "(string \<times> string) list"

text \<open>The body of a response is what \<open>io.ReadAll\<close> makes of it: an error or the bytes.\<close>

record response =
  StatusCode :: int
  Status :: string
  Body :: "string + string"

datatype do_result = DoError string | DoResponse response

text \<open>
  Everything the program does to its surroundings is appended to a trace, in the order
  in which it happens: a request sent with \<open>client.Do\<close>, a completed back-off sleep (in
  seconds), a line printed to standard output, a line written with \<open>Fprintln\<close> to the
  output sink, a message given to \<open>log.Printf\<close>.
\<close>

datatype event =
    Do request
  | Sleep nat
  | Stdout string
  | Fprintln string
  | LogPrintf string

type_synonym world = "event list"

text \<open>
  A value recovered from a panic is an \<open>error\<close> or something else. \<open>json.Unmarshal\<close> ends
  in one of three ways: it fills the target and returns nil, it returns an error, or it
  panics; in the last two cases the target is left in the state given.
\<close>

datatype panic_value = PanicError string | PanicOther

datatype 'a unmarshal_result =
    Unmarshalled 'a
  | UnmarshalError string 'a
  | UnmarshalPanic panic_value 'a

record program =
  Handle :: string
  OffersBounties :: bool

record scope_entry =
  EligibleForBounty :: bool
  AssetIdentifier :: string

text \<open>
  The surroundings answer as a function of the trace so far, so that any server, any
  clock and any cancellation can be described:
  \<^item> \<open>ctxDone h d\<close> is \<open>ctx.Err()\<close> if the context is done within \<open>d\<close> seconds after the
    history \<open>h\<close> (with \<open>d = 0\<close>: if it is done now), and \<open>None\<close> otherwise;
  \<^item> \<open>newRequestErr url\<close> is the error of \<open>http.NewRequestWithContext\<close>, if any;
  \<^item> \<open>clientDo h req\<close> is the outcome of \<open>client.Do(req)\<close> after the history \<open>h\<close>;
  \<^item> \<open>unmarshalPrograms\<close> and \<open>unmarshalScope\<close> are \<open>json.Unmarshal\<close> into the two page types.
\<close>

record env =
  ctxDone :: "world \<Rightarrow> nat \<Rightarrow> string option"
  newRequestErr :: "string \<Rightarrow> string option"
  clientDo :: "world \<Rightarrow> request \<Rightarrow> do_result"
  unmarshalPrograms :: "string \<Rightarrow> program list unmarshal_result"
  unmarshalScope :: "string \<Rightarrow> scope_entry list unmarshal_result"


section \<open>Resilient HTTP requester\<close>

definition newRequest :: "string \<Rightarrow> string \<Rightarrow> request" where
  "newRequest url auth =
     \<lparr>reqMethod = ''GET'', reqURL = url,
      reqHeader = [(''Content-Type'', ''application/json''),
                   (''Accept'', ''application/json''),
                   (''Authorization'', ''Basic '' @ auth)]\<rparr>"

definition doRequest :: "env \<Rightarrow> string \<Rightarrow> string \<Rightarrow> world \<Rightarrow> world \<times> (string + string)" where
  "doRequest env url auth st =
     (case newRequestErr env url of
        Some err \<Rightarrow> (st, Inl err)
      | None \<Rightarrow>
          let req = newRequest url auth; st1 = st @ [Do req] in
          (case clientDo env st req of
             DoError err \<Rightarrow> (st1, Inl err)
           | DoResponse resp \<Rightarrow>
               if StatusCode resp \<ge> 500 then (st1, Inl (''API unavailable: '' @ Status resp))
               else if StatusCode resp \<ge> 400
                 then (st1, Inl (''API returned error '' @ Status resp))
               else (case Body resp of
                       Inl err \<Rightarrow> (st1, Inl err)
                     | Inr body \<Rightarrow> (st1, Inr body))))"

text \<open>
  The loop of \<open>doRequestWithRetry\<close>, with its two variables \<open>attempt\<close> and \<open>lastErr\<close>.
  The delay is \<open>time.Duration(1<<uint(attempt)) * time.Second\<close>, in seconds \<open>2 ^ attempt\<close>.
\<close>

function retryLoop ::
  "env \<Rightarrow> string \<Rightarrow> string \<Rightarrow> nat \<Rightarrow> string option \<Rightarrow> world \<Rightarrow> world \<times> (string + string)"
where
  "retryLoop env url auth attempt lastErr st =
     (if attempt < 3 then
        (case (if attempt > 0 then ctxDone env st (2 ^ attempt) else None) of
           Some cerr \<Rightarrow> (st, Inl cerr)
         | None \<Rightarrow>
             let st1 = (if attempt > 0 then st @ [Sleep (2 ^ attempt)] else st) in
             (case doRequest env url auth st1 of
                (st2, Inr body) \<Rightarrow> (st2, Inr body)
              | (st2, Inl err) \<Rightarrow>
                  if \<not> strings_Contains err ''deadline exceeded'' then (st2, Inl err)
                  else retryLoop env url auth (attempt + 1) (Some err) st2))
      else (st, Inl (''despu'' @ [CHR 0xC3, CHR 0xA9] @ ''s de 3 intentos: ''
                      @ (case lastErr of Some err \<Rightarrow> err | None \<Rightarrow> ''%!w(<nil>)''))))"
  by pat_completeness auto
termination
  by (relation "measure (\<lambda>(env, url, auth, attempt, lastErr, st). 3 - attempt)") auto

declare retryLoop.simps [simp del]

definition doRequestWithRetry ::
  "env \<Rightarrow> string \<Rightarrow> string \<Rightarrow> world \<Rightarrow> world \<times> (string + string)" where
  "doRequestWithRetry env url auth st = retryLoop env url auth 0 None st"


section \<open>Safe decoder\<close>

text \<open>
  The deferred function recovers a panic and logs it. \<open>safeUnmarshal\<close> has an unnamed
  result, which the deferred function cannot set: after a recovered panic the function
  returns the zero value of \<open>error\<close>, nil.
\<close>

definition safeUnmarshal ::
  "(string \<Rightarrow> 'a unmarshal_result) \<Rightarrow> string \<Rightarrow> world \<Rightarrow> world \<times> string option \<times> 'a" where
  "safeUnmarshal json_Unmarshal data st =
     (case json_Unmarshal data of
        Unmarshalled v \<Rightarrow> (st, None, v)
      | UnmarshalError err v \<Rightarrow> (st, Some (''JSON decode failed: '' @ err), v)
      | UnmarshalPanic r v \<Rightarrow>
          let err = (case r of PanicError e \<Rightarrow> e | PanicOther \<Rightarrow> ''panic'')
          in (st @ [LogPrintf (''panic recuperado: '' @ err)], None, v))"


section \<open>Platform fetcher\<close>

fun collectAssets :: "scope_entry list \<Rightarrow> string list \<Rightarrow> string list" where
  "collectAssets [] assets = assets"
| "collectAssets (d # ds) assets =
     collectAssets ds (if EligibleForBounty d then assets @ [AssetIdentifier d] else assets)"

definition fetchEligibleAssets ::
  "env \<Rightarrow> string \<Rightarrow> string \<Rightarrow> world \<Rightarrow> world \<times> (string + string list)" where
  "fetchEligibleAssets env auth handle st =
     (case doRequestWithRetry env (scopeURL handle) auth st of
        (st1, Inl err) \<Rightarrow> (st1, Inl err)
      | (st1, Inr body) \<Rightarrow>
          (case safeUnmarshal (unmarshalScope env) body st1 of
             (st2, Some err, pg) \<Rightarrow> (st2, Inl err)
           | (st2, None, pg) \<Rightarrow> (st2, Inr (collectAssets pg []))))"

text \<open>The loop of \<open>Fetch\<close> over the programs of one page.\<close>

fun fetchPrograms ::
  "env \<Rightarrow> string \<Rightarrow> program list \<Rightarrow> nat \<Rightarrow> world \<Rightarrow> world \<times> nat \<times> string option" where
  "fetchPrograms env auth [] processed st = (st, processed, None)"
| "fetchPrograms env auth (d # ds) processed st =
     (if \<not> OffersBounties d then fetchPrograms env auth ds processed st
      else
        let handle = Handle d;
            st1 = st @ [Stdout (''Procesando: '' @ handle @ [CHR 0x0A])]
        in (case fetchEligibleAssets env auth handle st1 of
              (st2, Inl err) \<Rightarrow>
                (st2, processed, Some (''handle '' @ handle @ '' failed: '' @ err))
            | (st2, Inr assets) \<Rightarrow>
                fetchPrograms env auth ds (processed + 1) (st2 @ map Fprintln assets)))"

text \<open>
  The loop of \<open>Fetch\<close> over the pages has no bound of its own: it ends when the server
  sends an empty page. The model counts the pages it may still request; \<open>None\<close> says that
  the count ran out before the loop ended. The page number and the counter are Go \<open>int\<close>s
  that only grow by one; they are natural numbers here.
\<close>

fun fetchPages ::
  "nat \<Rightarrow> env \<Rightarrow> string \<Rightarrow> nat \<Rightarrow> nat \<Rightarrow> world \<Rightarrow> (world \<times> nat \<times> string option) option" where
  "fetchPages 0 env auth page processed st = None"
| "fetchPages (Suc fuel) env auth page processed st =
     (case ctxDone env st 0 of
        Some cerr \<Rightarrow> Some (st, processed, Some cerr)
      | None \<Rightarrow>
          (case doRequestWithRetry env (programsURL page) auth st of
             (st1, Inl err) \<Rightarrow>
               Some (st1, processed, Some (''programs page request failed: '' @ err))
           | (st1, Inr body) \<Rightarrow>
               (case safeUnmarshal (unmarshalPrograms env) body st1 of
                  (st2, Some err, pg) \<Rightarrow> Some (st2, processed, Some err)
                | (st2, None, pg) \<Rightarrow>
                    if length pg = 0 then Some (st2, processed, None)
                    else (case fetchPrograms env auth pg processed st2 of
                            (st3, processed', Some err) \<Rightarrow> Some (st3, processed', Some err)
                          | (st3, processed', None) \<Rightarrow>
                              fetchPages fuel env auth (page + 1) processed' st3))))"

definition Fetch ::
  "nat \<Rightarrow> env \<Rightarrow> string \<Rightarrow> world \<Rightarrow> (world \<times> nat \<times> string option) option" where
  "Fetch fuel env apiKey st =
     (let parts = strings_SplitN2 apiKey (CHR '':'') in
      if length parts \<noteq> 2
      then Some (st, 0, Some (''formato de credenciales inv'' @ [CHR 0xC3, CHR 0xA1]
                               @ ''lido, debe ser username:apikey''))
      else
        let username = parts ! 0; key = parts ! 1;
            auth = EncodeToString (username @ '':'' @ key)
        in fetchPages fuel env auth 1 0 st)"


section \<open>Observations on a trace\<close>

fun requestedURLs :: "world \<Rightarrow> string list" where
  "requestedURLs [] = []"
| "requestedURLs (Do req # tr) = reqURL req # requestedURLs tr"
| "requestedURLs (_ # tr) = requestedURLs tr"

fun sleeps :: "world \<Rightarrow> nat list" where
  "sleeps [] = []"
| "sleeps (Sleep d # tr) = d # sleeps tr"
| "sleeps (_ # tr) = sleeps tr"

fun sinkLines :: "world \<Rightarrow> string list" where
  "sinkLines [] = []"
| "sinkLines (Fprintln l # tr) = l # sinkLines tr"
| "sinkLines (_ # tr) = sinkLines tr"

definition isProgramsURL :: "string \<Rightarrow> bool" where
  "isProgramsURL url =
     prefix ''https://api.hackerone.com/v1/hackers/programs?page[number]='' url"


definition pageRequests :: "world \<Rightarrow> string list" where
  "pageRequests tr = filter isProgramsURL (requestedURLs tr)"


section \<open>Vocabulary of the statements\<close>

text \<open>
  \<open>respondsOK env url auth good\<close>: a request for \<open>url\<close> can be built and, whenever it is
  sent, the answer has a status below 400 and a body that can be read and that
  satisfies \<open>good\<close>.
\<close>

definition respondsOK :: "env \<Rightarrow> string \<Rightarrow> string \<Rightarrow> (string \<Rightarrow> bool) \<Rightarrow> bool" where
  "respondsOK env url auth good \<longleftrightarrow>
     newRequestErr env url = None \<and>
     (\<forall>tr. \<exists>resp body. clientDo env tr (newRequest url auth) = DoResponse resp
        \<and> StatusCode resp < 400 \<and> Body resp = Inr body \<and> good body)"

definition servesPage :: "env \<Rightarrow> string \<Rightarrow> nat \<Rightarrow> program list \<Rightarrow> bool" where
  "servesPage env auth page programs \<longleftrightarrow>
     respondsOK env (programsURL page) auth
       (\<lambda>body. unmarshalPrograms env body = Unmarshalled programs)"

definition servesScope :: "env \<Rightarrow> string \<Rightarrow> string \<Rightarrow> scope_entry list \<Rightarrow> bool" where
  "servesScope env auth handle entries \<longleftrightarrow>
     respondsOK env (scopeURL handle) auth
       (\<lambda>body. unmarshalScope env body = Unmarshalled entries)"

text \<open>The assets that are written for a scope page, and the trace of one handled program.\<close>

definition eligibleAssets :: "scope_entry list \<Rightarrow> string list" where
  "eligibleAssets entries = map AssetIdentifier (filter EligibleForBounty entries)"

definition procesando :: "string \<Rightarrow> event" where
  "procesando handle = Stdout (''Procesando: '' @ handle @ [CHR 0x0A])"

definition programEvents :: "string \<Rightarrow> (string \<Rightarrow> scope_entry list) \<Rightarrow> program \<Rightarrow> event list" where
  "programEvents auth S d =
     procesando (Handle d) # Do (newRequest (scopeURL (Handle d)) auth)
       # map Fprintln (eligibleAssets (S (Handle d)))"


section \<open>Scripted surroundings\<close>

text \<open>
  A server given by a table from URL to outcome (any other URL is answered with 404), a
  context that is never done, and decoders given by tables from body to result.
\<close>

definition respond :: "int \<Rightarrow> string \<Rightarrow> string \<Rightarrow> do_result" where
  "respond code text body = DoResponse \<lparr>StatusCode = code, Status = text, Body = Inr body\<rparr>"

definition scriptedEnv ::
  "(string \<times> do_result) list \<Rightarrow> (string \<times> program list unmarshal_result) list
     \<Rightarrow> (string \<times> scope_entry list unmarshal_result) list \<Rightarrow> env" where
  "scriptedEnv routes programPages scopePages =
     \<lparr>ctxDone = (\<lambda>tr d. None),
      newRequestErr = (\<lambda>url. None),
      clientDo = (\<lambda>tr req. case map_of routes (reqURL req) of
                              Some r \<Rightarrow> r
                            | None \<Rightarrow> respond 404 ''404 Not Found'' []),
      unmarshalPrograms = (\<lambda>body. case map_of programPages body of
                              Some r \<Rightarrow> r
                            | None \<Rightarrow> UnmarshalError ''unexpected end of JSON input'' []),
      unmarshalScope = (\<lambda>body. case map_of scopePages body of
                              Some r \<Rightarrow> r
                            | None \<Rightarrow> UnmarshalError ''unexpected end of JSON input'' [])\<rparr>"

definition prog :: "string \<Rightarrow> bool \<Rightarrow> program" where
  "prog handle offers = \<lparr>Handle = handle, OffersBounties = offers\<rparr>"

definition entry :: "bool \<Rightarrow> string \<Rightarrow> scope_entry" where
  "entry eligible asset = \<lparr>EligibleForBounty = eligible, AssetIdentifier = asset\<rparr>"

text \<open>Three pages with 3, 2 and 0 programs; every program that offers bounties has a scope.\<close>

definition demoPage :: "nat \<Rightarrow> program list" where
  "demoPage i =
     (if i = 1 then [prog ''acme'' True, prog ''beta'' False, prog ''corp'' True]
      else if i = 2 then [prog ''y'' False, prog ''x'' True]
      else [])"

definition demoScope :: "string \<Rightarrow> scope_entry list" where
  "demoScope handle =
     (if handle = ''acme'' then [entry True ''api.acme.com'']
      else if handle = ''corp''
        then [entry True ''corp.example'', entry False ''old.corp.example'',
              entry True ''shop.corp.example'']
      else if handle = ''x'' then [entry False ''a.com'', entry True ''b.com'']
      else [])"

definition demoEnv :: env where
  "demoEnv =
     scriptedEnv
       [(programsURL 1, respond 200 ''200 OK'' ''p1''),
        (programsURL 2, respond 200 ''200 OK'' ''p2''),
        (programsURL 3, respond 200 ''200 OK'' ''p3''),
        (scopeURL ''acme'', respond 200 ''200 OK'' ''s-acme''),
        (scopeURL ''corp'', respond 200 ''200 OK'' ''s-corp''),
        (scopeURL ''x'', respond 200 ''200 OK'' ''s-x'')]
       [(''p1'', Unmarshalled (demoPage 1)), (''p2'', Unmarshalled (demoPage 2)),
        (''p3'', Unmarshalled (demoPage 3))]
       [(''s-acme'', Unmarshalled (demoScope ''acme'')),
        (''s-corp'', Unmarshalled (demoScope ''corp'')),
        (''s-x'', Unmarshalled (demoScope ''x''))]"

text \<open>One page whose second bounty program has no scope on the server.\<close>

definition ghostEnv :: env where
  "ghostEnv =
     scriptedEnv
       [(programsURL 1, respond 200 ''200 OK'' ''p1''),
        (scopeURL ''acme'', respond 200 ''200 OK'' ''s-acme''),
        (scopeURL ''corp'', respond 200 ''200 OK'' ''s-corp'')]
       [(''p1'', Unmarshalled [prog ''acme'' True, prog ''ghost'' True, prog ''corp'' True])]
       [(''s-acme'', Unmarshalled (demoScope ''acme'')),
        (''s-corp'', Unmarshalled (demoScope ''corp''))]"

text \<open>Servers that answer one URL with a fixed outcome.\<close>

definition exampleURL :: string where
  "exampleURL = ''https://api.hackerone.com/v1/hackers/programs/acme/structured_scopes''"

definition fixedEnv :: "do_result \<Rightarrow> env" where
  "fixedEnv outcome = scriptedEnv [(exampleURL, outcome)] [] []"

text \<open>A server whose first page makes the decoder panic, the target still empty.\<close>

definition panicEnv :: env where
  "panicEnv =
     scriptedEnv [(programsURL 1, respond 200 ''200 OK'' ''p1'')]
       [(''p1'', UnmarshalPanic (PanicError ''runtime error: index out of range'') [])] []"


text \<open>One page; the scope of its bounty program \<open>acme\<close> is answered with a body that is not JSON.\<close>

definition badJsonEnv :: env where
  "badJsonEnv =
     scriptedEnv
       [(programsURL 1, respond 200 ''200 OK'' ''p1''),
        (scopeURL ''acme'', respond 200 ''200 OK'' ''<html>''),
        (scopeURL ''corp'', respond 200 ''200 OK'' ''s-corp'')]
       [(''p1'', Unmarshalled [prog ''beta'' False, prog ''acme'' True, prog ''corp'' True])]
       [(''<html>'', UnmarshalError ''invalid character < looking for beginning of value'' []),
        (''s-corp'', Unmarshalled (demoScope ''corp''))]"


section \<open>UTF-8: decoding and encoding undo each other\<close>

lemma mod_off: "k < m \<Longrightarrow> (c * m + k) mod m = (k::nat)"
  by simp

lemma low6: "k < 64 \<Longrightarrow> (128 + k) mod 64 = (k::nat)"
  using mod_off [of k 64 2] by simp

lemma digit64: "k < 64 \<Longrightarrow> (a * 64 + k) div 64 = (a::nat) \<and> (a * 64 + k) mod 64 = k"
  by simp

lemma div_4096: "(r::nat) div 4096 = r div 64 div 64"
  by (simp add: div_mult2_eq [symmetric])

lemma div_262144: "(r::nat) div 262144 = r div 64 div 64 div 64"
  by (simp add: div_mult2_eq [symmetric])

lemma cont_off: "cont b \<Longrightarrow> \<exists>k. b = 128 + k \<and> k < 64"
  by (rule exI [of _ "b - 128"]) (auto simp: cont_def)

lemma cont_low [simp]: "k < 64 \<Longrightarrow> cont (128 + k)"
  by (simp add: cont_def)

lemma scalar_RuneError [simp]: "scalar RuneError"
  by (simp add: scalar_def RuneError_def)

text \<open>Two bytes.\<close>

lemma encode2:
  assumes q: "2 \<le> q" "q < 32" and k: "k < 64"
  shows "encodeRune (q * 64 + k) = [192 + q, 128 + k]" "scalar (q * 64 + k)"
proof -
  from q k have lo: "\<not> q * 64 + k \<le> 127" and hi: "q * 64 + k \<le> 2047" by simp_all
  with digit64 [OF k, of q] show "encodeRune (q * 64 + k) = [192 + q, 128 + k]"
    by (simp add: encodeRune_def)
  from hi show "scalar (q * 64 + k)" by (simp add: scalar_def)
qed

lemma decode2:
  assumes q: "2 \<le> q" "q < 32" and k: "k < 64"
  shows "decodeRune ((192 + q) # (128 + k) # rest) = Some (q * 64 + k, rest)"
proof -
  have "(192 + q) mod 32 = q" using mod_off [of q 32 6] q by simp
  with q k show ?thesis by (simp add: low6)
qed

text \<open>Three bytes.\<close>

lemma encode3:
  assumes q: "q < 16" and k1: "k1 < 64" and k2: "k2 < 64"
    and lo: "q = 0 \<longrightarrow> 32 \<le> k1" and sur: "q = 13 \<longrightarrow> k1 < 32"
  shows "encodeRune ((q * 64 + k1) * 64 + k2) = [224 + q, 128 + k1, 128 + k2]"
    "scalar ((q * 64 + k1) * 64 + k2)"
proof -
  define a where "a = q * 64 + k1"
  define r where "r = a * 64 + k2"
  have a: "32 \<le> a" "a \<le> 1023"
    using q k1 lo by (auto simp: a_def)
  have "q \<le> 12 \<or> q = 13 \<or> 14 \<le> q" by arith
  then have a': "\<not> (864 \<le> a \<and> a \<le> 895)"
    using k1 sur by (auto simp: a_def)
  have r: "\<not> r \<le> 127" "\<not> r \<le> 2047" "r \<le> 65535" "\<not> r > 1114111"
    "\<not> (55296 \<le> r \<and> r \<le> 57343)"
    using a a' k2 by (auto simp: r_def)
  have d: "r div 64 = a" "r mod 64 = k2" using digit64 [OF k2, of a] by (simp_all add: r_def)
  have e: "a div 64 = q" "a mod 64 = k1" using digit64 [OF k1, of q] by (simp_all add: a_def)
  have "encodeRune r = [224 + q, 128 + k1, 128 + k2]"
    by (simp add: encodeRune_def div_4096 d e r)
  then show "encodeRune ((q * 64 + k1) * 64 + k2) = [224 + q, 128 + k1, 128 + k2]"
    by (simp add: r_def a_def)
  have "scalar r" using r by (simp add: scalar_def)
  then show "scalar ((q * 64 + k1) * 64 + k2)" by (simp add: r_def a_def)
qed

lemma second3_off:
  assumes "q < 16" "k1 < 64"
  shows "second3 (224 + q) (128 + k1) \<longleftrightarrow> (q = 0 \<longrightarrow> 32 \<le> k1) \<and> (q = 13 \<longrightarrow> k1 < 32)"
  using assms by (auto simp: second3_def cont_def)

lemma decode3:
  assumes q: "q < 16" and k1: "k1 < 64" and k2: "k2 < 64"
    and lo: "q = 0 \<longrightarrow> 32 \<le> k1" and sur: "q = 13 \<longrightarrow> k1 < 32"
  shows "decodeRune ((224 + q) # (128 + k1) # (128 + k2) # rest)
           = Some ((q * 64 + k1) * 64 + k2, rest)"
proof -
  have m: "(224 + q) mod 16 = q" using mod_off [of q 16 14] q by simp
  have s: "second3 (224 + q) (128 + k1)" using second3_off [OF q k1] lo sur by simp
  have v: "q * 4096 + k1 * 64 + k2 = (q * 64 + k1) * 64 + k2" by simp
  from q k1 k2 s show ?thesis
    by (simp add: m low6 v del: mult_Suc_right)
qed

text \<open>Four bytes.\<close>

lemma encode4:
  assumes q: "q < 5" and k1: "k1 < 64" and k2: "k2 < 64" and k3: "k3 < 64"
    and lo: "q = 0 \<longrightarrow> 16 \<le> k1" and hi: "q = 4 \<longrightarrow> k1 < 16"
  shows "encodeRune (((q * 64 + k1) * 64 + k2) * 64 + k3)
           = [240 + q, 128 + k1, 128 + k2, 128 + k3]"
    "scalar (((q * 64 + k1) * 64 + k2) * 64 + k3)"
proof -
  define a where "a = q * 64 + k1"
  define b where "b = a * 64 + k2"
  define r where "r = b * 64 + k3"
  have a: "16 \<le> a" "a \<le> 271" using q k1 lo hi by (auto simp: a_def)
  have b: "1024 \<le> b" "b \<le> 17407" using a k2 by (auto simp: b_def)
  have r: "\<not> r \<le> 127" "\<not> r \<le> 2047" "\<not> r \<le> 65535" "\<not> r > 1114111"
    "\<not> (55296 \<le> r \<and> r \<le> 57343)"
    using b k3 by (auto simp: r_def)
  have d: "r div 64 = b" "r mod 64 = k3" using digit64 [OF k3, of b] by (simp_all add: r_def)
  have e: "b div 64 = a" "b mod 64 = k2" using digit64 [OF k2, of a] by (simp_all add: b_def)
  have f: "a div 64 = q" "a mod 64 = k1" using digit64 [OF k1, of q] by (simp_all add: a_def)
  have "encodeRune r = [240 + q, 128 + k1, 128 + k2, 128 + k3]"
    by (simp add: encodeRune_def div_4096 div_262144 d e f r)
  then show "encodeRune (((q * 64 + k1) * 64 + k2) * 64 + k3)
           = [240 + q, 128 + k1, 128 + k2, 128 + k3]"
    by (simp add: r_def b_def a_def)
  have "scalar r" using r by (simp add: scalar_def)
  then show "scalar (((q * 64 + k1) * 64 + k2) * 64 + k3)" by (simp add: r_def b_def a_def)
qed

lemma second4_off:
  assumes "q < 5" "k1 < 64"
  shows "second4 (240 + q) (128 + k1) \<longleftrightarrow> (q = 0 \<longrightarrow> 16 \<le> k1) \<and> (q = 4 \<longrightarrow> k1 < 16)"
  using assms by (auto simp: second4_def cont_def)

lemma decode4:
  assumes q: "q < 5" and k1: "k1 < 64" and k2: "k2 < 64" and k3: "k3 < 64"
    and lo: "q = 0 \<longrightarrow> 16 \<le> k1" and hi: "q = 4 \<longrightarrow> k1 < 16"
  shows "decodeRune ((240 + q) # (128 + k1) # (128 + k2) # (128 + k3) # rest)
           = Some (((q * 64 + k1) * 64 + k2) * 64 + k3, rest)"
proof -
  have m: "(240 + q) mod 8 = q" using mod_off [of q 8 30] q by simp
  have s: "second4 (240 + q) (128 + k1)" using second4_off [OF q k1] lo hi by simp
  have v: "q * 262144 + k1 * 4096 + k2 * 64 + k3 = ((q * 64 + k1) * 64 + k2) * 64 + k3" by simp
  from q k1 k2 k3 s show ?thesis
    by (simp add: m low6 v)
qed


text \<open>What is decoded is a scalar value, and the bytes read are its encoding.\<close>

lemma decodeRune_encodeRune:
  assumes "decodeRune bs = Some (r, rest)"
  shows "bs = encodeRune r @ rest \<and> scalar r"
proof (cases bs)
  case Nil
  with assms show ?thesis by simp
next
  case (Cons b0 bs')
  consider (one) "b0 < 128"
    | (two) "194 \<le> b0" "b0 \<le> 223"
    | (three) "224 \<le> b0" "b0 \<le> 239"
    | (four) "240 \<le> b0" "b0 \<le> 244"
    | (none) "128 \<le> b0" "\<not> (194 \<le> b0 \<and> b0 \<le> 223)" "\<not> (224 \<le> b0 \<and> b0 \<le> 239)"
        "\<not> (240 \<le> b0 \<and> b0 \<le> 244)"
    by linarith
  then show ?thesis
  proof cases
    case one
    with assms Cons show ?thesis by (simp add: encodeRune_def scalar_def)
  next
    case two
    with assms Cons obtain b1 where s: "bs' = b1 # rest" "cont b1"
      by (auto split: list.splits if_splits)
    from cont_off [OF s(2)] obtain k where k: "b1 = 128 + k" "k < 64" by blast
    define q where "q = b0 - 192"
    have q: "b0 = 192 + q" "2 \<le> q" "q < 32" using two by (simp_all add: q_def)
    from assms have "r = q * 64 + k"
      unfolding Cons s k q(1) decode2 [OF q(2,3) k(2)] by simp
    with encode2 [OF q(2,3) k(2)] show ?thesis by (simp add: Cons s k q(1))
  next
    case three
    with assms Cons obtain b1 b2 where s: "bs' = b1 # b2 # rest" "second3 b0 b1" "cont b2"
      by (auto split: list.splits if_splits)
    from s(2) have "cont b1" by (auto simp: second3_def cont_def split: if_splits)
    from cont_off [OF this] obtain k1 where k1: "b1 = 128 + k1" "k1 < 64" by blast
    from cont_off [OF s(3)] obtain k2 where k2: "b2 = 128 + k2" "k2 < 64" by blast
    define q where "q = b0 - 224"
    have q: "b0 = 224 + q" "q < 16" using three by (simp_all add: q_def)
    from s(2) have c: "q = 0 \<longrightarrow> 32 \<le> k1" "q = 13 \<longrightarrow> k1 < 32"
      unfolding q(1) k1(1) second3_off [OF q(2) k1(2)] by simp_all
    from assms have "r = (q * 64 + k1) * 64 + k2"
      unfolding Cons s k1 k2 q(1) decode3 [OF q(2) k1(2) k2(2) c] by simp
    with encode3 [OF q(2) k1(2) k2(2) c] show ?thesis by (simp add: Cons s k1 k2 q(1))
  next
    case four
    with assms Cons obtain b1 b2 b3 where
      s: "bs' = b1 # b2 # b3 # rest" "second4 b0 b1" "cont b2" "cont b3"
      by (auto split: list.splits if_splits)
    from s(2) have "cont b1" by (auto simp: second4_def cont_def split: if_splits)
    from cont_off [OF this] obtain k1 where k1: "b1 = 128 + k1" "k1 < 64" by blast
    from cont_off [OF s(3)] obtain k2 where k2: "b2 = 128 + k2" "k2 < 64" by blast
    from cont_off [OF s(4)] obtain k3 where k3: "b3 = 128 + k3" "k3 < 64" by blast
    define q where "q = b0 - 240"
    have q: "b0 = 240 + q" "q < 5" using four by (simp_all add: q_def)
    from s(2) have c: "q = 0 \<longrightarrow> 16 \<le> k1" "q = 4 \<longrightarrow> k1 < 16"
      unfolding q(1) k1(1) second4_off [OF q(2) k1(2)] by simp_all
    from assms have "r = ((q * 64 + k1) * 64 + k2) * 64 + k3"
      unfolding Cons s k1 k2 k3 q(1) decode4 [OF q(2) k1(2) k2(2) k3(2) c] by simp
    with encode4 [OF q(2) k1(2) k2(2) k3(2) c] show ?thesis
      by (simp add: Cons s k1 k2 k3 q(1))
  next
    case none
    with assms Cons show ?thesis by simp
  qed
qed

text \<open>The encoding of a scalar value is decoded to that value.\<close>

lemma encodeRune_decodeRune:
  assumes "scalar r"
  shows "decodeRune (encodeRune r @ rest) = Some (r, rest)"
proof -
  consider (one) "r \<le> 127" | (two) "128 \<le> r" "r \<le> 2047"
    | (three) "2048 \<le> r" "r \<le> 65535" | (four) "65536 \<le> r"
    by linarith
  then show ?thesis
  proof cases
    case one
    then show ?thesis by (simp add: encodeRune_def)
  next
    case two
    define q where "q = r div 64"
    define k where "k = r mod 64"
    have r: "r = q * 64 + k" by (simp add: q_def k_def)
    have k: "k < 64" by (simp add: k_def)
    have q: "2 \<le> q" "q < 32" using two k unfolding r by simp_all
    show ?thesis unfolding r encode2 [OF q k] using decode2 [OF q k] by simp
  next
    case three
    define a where "a = r div 64"
    define k2 where "k2 = r mod 64"
    define q where "q = a div 64"
    define k1 where "k1 = a mod 64"
    have r: "r = a * 64 + k2" by (simp add: a_def k2_def)
    have a: "a = q * 64 + k1" by (simp add: q_def k1_def)
    have k: "k1 < 64" "k2 < 64" by (simp_all add: k1_def k2_def)
    have a': "32 \<le> a" "a < 1024" using three k unfolding r by simp_all
    have q: "q < 16" using a' k unfolding a by simp
    have lo: "q = 0 \<longrightarrow> 32 \<le> k1" using a' unfolding a by simp
    have ns: "\<not> (55296 \<le> r \<and> r \<le> 57343)" using assms by (simp add: scalar_def)
    have sur: "q = 13 \<longrightarrow> k1 < 32"
    proof (rule ccontr)
      assume "\<not> (q = 13 \<longrightarrow> k1 < 32)"
      then have "864 \<le> a \<and> a \<le> 895" using k unfolding a by simp
      then have "55296 \<le> r \<and> r \<le> 57343" using k unfolding r by simp
      with ns show False by simp
    qed
    have r': "r = (q * 64 + k1) * 64 + k2" by (simp add: r a)
    show ?thesis unfolding r' encode3 [OF q k lo sur] using decode3 [OF q k lo sur] by simp
  next
    case four
    define b where "b = r div 64"
    define k3 where "k3 = r mod 64"
    define a where "a = b div 64"
    define k2 where "k2 = b mod 64"
    define q where "q = a div 64"
    define k1 where "k1 = a mod 64"
    have r: "r = b * 64 + k3" by (simp add: b_def k3_def)
    have b: "b = a * 64 + k2" by (simp add: a_def k2_def)
    have a: "a = q * 64 + k1" by (simp add: q_def k1_def)
    have k: "k1 < 64" "k2 < 64" "k3 < 64" by (simp_all add: k1_def k2_def k3_def)
    have "r \<le> 1114111" using assms by (simp add: scalar_def)
    with four have b': "1024 \<le> b" "b < 17408" using k unfolding r by simp_all
    then have a': "16 \<le> a" "a < 272" using k unfolding b by simp_all
    have q: "q < 5" using a' k unfolding a by simp
    have lo: "q = 0 \<longrightarrow> 16 \<le> k1" using a' unfolding a by simp
    have hi: "q = 4 \<longrightarrow> k1 < 16" using a' unfolding a by simp
    have r': "r = ((q * 64 + k1) * 64 + k2) * 64 + k3" by (simp add: r b a)
    show ?thesis unfolding r' encode4 [OF q k lo hi] using decode4 [OF q k lo hi] by simp
  qed
qed


lemma encodeRune_bytes: "b \<in> set (encodeRune r) \<Longrightarrow> b < 256"
proof -
  assume b: "b \<in> set (encodeRune r)"
  have m: "r mod 64 < 64" "r div 64 mod 64 < 64" "r div 4096 mod 64 < 64" by simp_all
  have d2: "r \<le> 2047 \<Longrightarrow> r div 64 \<le> 31" using div_le_mono [of r 2047 64] by simp
  have d3: "r \<le> 65535 \<Longrightarrow> r div 4096 \<le> 15" using div_le_mono [of r 65535 4096] by simp
  have d4: "r \<le> 1114111 \<Longrightarrow> r div 262144 \<le> 4" using div_le_mono [of r 1114111 262144] by simp
  consider (one) "r \<le> 127" | (two) "\<not> r \<le> 127" "r \<le> 2047"
    | (err) "\<not> r \<le> 2047" "r > 1114111 \<or> (55296 \<le> r \<and> r \<le> 57343)"
    | (three) "\<not> r \<le> 2047" "\<not> (r > 1114111 \<or> (55296 \<le> r \<and> r \<le> 57343))" "r \<le> 65535"
    | (four) "\<not> r \<le> 65535" "r \<le> 1114111" "\<not> (55296 \<le> r \<and> r \<le> 57343)"
    by linarith
  then show "b < 256"
  proof cases
    case one
    with b show ?thesis by (simp add: encodeRune_def)
  next
    case two
    with b d2 m(1) show ?thesis by (auto simp: encodeRune_def)
  next
    case err
    then have "\<not> r \<le> 127" by simp
    with b err show ?thesis by (auto simp: encodeRune_def)
  next
    case three
    then have "\<not> r \<le> 127" by simp
    with b three d3 m show ?thesis by (auto simp: encodeRune_def)
  next
    case four
    then have "\<not> r \<le> 127" "\<not> r \<le> 2047" "\<not> r > 1114111" by simp_all
    with b four d4 m show ?thesis by (auto simp: encodeRune_def)
  qed
qed

lemma encodeRune_not_Nil [simp]: "encodeRune r \<noteq> []"
  by (simp add: encodeRune_def)

lemma runes_encodeRune:
  assumes "scalar r"
  shows "runes (encodeRune r @ rest) = r # runes rest"
proof -
  obtain b bs where e: "encodeRune r @ rest = b # bs"
    by (cases "encodeRune r @ rest") simp_all
  from encodeRune_decodeRune [OF assms, of rest] have "decodeRune (b # bs) = Some (r, rest)"
    by (simp add: e)
  then show ?thesis unfolding e by simp
qed

lemma runes_concat_encodeRune:
  "\<forall>r \<in> set rs. scalar r \<Longrightarrow> runes (concat (map encodeRune rs)) = rs"
  by (induction rs) (simp_all add: runes_encodeRune)

lemma runes_scalar: "r \<in> set (runes bs) \<Longrightarrow> scalar r"
proof (induction bs arbitrary: r rule: runes.induct)
  case 1
  then show ?case by simp
next
  case (2 b bs)
  show ?case
  proof (cases "decodeRune (b # bs)")
    case None
    with 2 show ?thesis by auto
  next
    case (Some p)
    obtain r' rest where p: "p = (r', rest)" by (cases p)
    from decodeRune_encodeRune [of "b # bs" r' rest] Some p have "scalar r'" by simp
    with 2 Some p show ?thesis by auto
  qed
qed

lemma validUTF8_encode_runes: "validUTF8 bs \<Longrightarrow> concat (map encodeRune (runes bs)) = bs"
proof (induction bs rule: runes.induct)
  case 1
  show ?case by simp
next
  case (2 b bs)
  show ?case
  proof (cases "decodeRune (b # bs)")
    case None
    with "2.prems" show ?thesis by simp
  next
    case (Some p)
    obtain r rest where p: "p = (r, rest)" by (cases p)
    from decodeRune_encodeRune [of "b # bs" r rest] Some p
    have e: "b # bs = encodeRune r @ rest" by simp
    from "2.prems" Some p have "validUTF8 rest" by simp
    then have i: "concat (map encodeRune (runes rest)) = rest"
      by (rule "2.IH"(2) [OF Some p [symmetric]])
    have "runes (b # bs) = r # runes rest" using Some p by simp
    then have "concat (map encodeRune (runes (b # bs))) = encodeRune r @ rest"
      by (simp add: i)
    then show ?thesis by (simp only: e)
  qed
qed

lemma validUTF8_concat_encodeRune:
  "\<forall>r \<in> set rs. scalar r \<Longrightarrow> validUTF8 (concat (map encodeRune rs))"
proof (induction rs)
  case Nil
  show ?case by simp
next
  case (Cons r rs)
  let ?rest = "concat (map encodeRune rs)"
  obtain b bs where e: "encodeRune r @ ?rest = b # bs"
    by (cases "encodeRune r @ ?rest") simp_all
  from Cons.prems have "scalar r" by simp
  from encodeRune_decodeRune [OF this, of ?rest] have "decodeRune (b # bs) = Some (r, ?rest)"
    by (simp add: e)
  with Cons show ?case by (simp add: e)
qed

text \<open>The bytes and the characters of a string.\<close>

lemma of_char_char_of_bytes: "\<forall>b \<in> set bs. b < 256 \<Longrightarrow> map of_char (map char_of bs) = (bs :: nat list)"
  by (induction bs) simp_all

lemma sanitize_bytes:
  "concat (map (\<lambda>c. let r = (if unicode_IsSpace c then - 1 else int c)
                      in if r < 0 then [] else encodeRune (nat r)) rs)
     = concat (map encodeRune (filter (\<lambda>r. \<not> unicode_IsSpace r) rs))"
  by (induction rs) simp_all

lemma sanitizeKey_bytes:
  "map of_char (sanitizeKey k)
     = concat (map encodeRune (filter (\<lambda>r. \<not> unicode_IsSpace r) (stringRunes k)))"
proof -
  have "\<forall>b \<in> set (concat (map encodeRune (filter (\<lambda>r. \<not> unicode_IsSpace r) (stringRunes k)))). b < 256"
    by (auto dest: encodeRune_bytes)
  then show ?thesis
    by (simp add: sanitizeKey_def strings_Map_def sanitize_bytes stringRunes_def
        of_char_char_of_bytes del: map_map)
qed

lemma stringRunes_sanitizeKey:
  "stringRunes (sanitizeKey k) = filter (\<lambda>r. \<not> unicode_IsSpace r) (stringRunes k)"
proof -
  have "\<forall>r \<in> set (filter (\<lambda>r. \<not> unicode_IsSpace r) (stringRunes k)). scalar r"
    by (auto simp: stringRunes_def dest: runes_scalar)
  from runes_concat_encodeRune [OF this] show ?thesis
    by (simp add: stringRunes_def [of "sanitizeKey k"] sanitizeKey_bytes)
qed

lemma sanitizeKey_valid_id:
  assumes "utf8_ValidString s" and "\<forall>r \<in> set (stringRunes s). \<not> unicode_IsSpace r"
  shows "sanitizeKey s = s"
proof -
  from assms(2) have "filter (\<lambda>r. \<not> unicode_IsSpace r) (stringRunes s) = stringRunes s"
    by simp
  then have "map of_char (sanitizeKey s) = concat (map encodeRune (runes (map of_char s)))"
    by (simp add: sanitizeKey_bytes stringRunes_def)
  also have "\<dots> = map of_char s"
    using assms(1) by (simp add: utf8_ValidString_def validUTF8_encode_runes)
  finally show ?thesis by (simp add: inj_map_eq_map [OF inj_of_char])
qed

lemma sanitizeKey_twice: "sanitizeKey (sanitizeKey s) = sanitizeKey s"
proof -
  have "map of_char (sanitizeKey (sanitizeKey s))
          = concat (map encodeRune (filter (\<lambda>r. \<not> unicode_IsSpace r)
                                           (stringRunes (sanitizeKey s))))"
    by (rule sanitizeKey_bytes)
  also have "\<dots> = concat (map encodeRune (filter (\<lambda>r. \<not> unicode_IsSpace r) (stringRunes s)))"
    by (simp add: stringRunes_sanitizeKey)
  also have "\<dots> = map of_char (sanitizeKey s)"
    by (rule sanitizeKey_bytes [symmetric])
  finally show ?thesis by (simp add: inj_map_eq_map [OF inj_of_char])
qed

text \<open>
  Claim C8, as amended. For every key \<open>s\<close>, the code points of \<open>sanitizeKey s\<close> are the code
  points of \<open>s\<close> that are not whitespace, in their original order, so none of them is
  whitespace; and a key that is well-formed UTF-8 and has no whitespace is returned
  unchanged. (A byte of \<open>s\<close> that belongs to no well-formed character counts as the code
  point \<open>U+FFFD\<close>, as it does for \<open>range\<close>, and is written as the three bytes of \<open>U+FFFD\<close>.)
\<close>

theorem sanitizeKey_removes_exactly_whitespace:
  "(\<forall>r \<in> set (stringRunes (sanitizeKey s)). \<not> unicode_IsSpace r)
   \<and> stringRunes (sanitizeKey s) = filter (\<lambda>r. \<not> unicode_IsSpace r) (stringRunes s)
   \<and> (utf8_ValidString s \<and> (\<forall>r \<in> set (stringRunes s). \<not> unicode_IsSpace r)
        \<longrightarrow> sanitizeKey s = s)"
  by (simp add: stringRunes_sanitizeKey sanitizeKey_valid_id)

text \<open>
  Witness for C8: from \<open>a b<tab><U+3000>c<NBSP>\<close> followed by e acute (two bytes) the four
  whitespace characters go, of one, three and two bytes; \<open>ab\<close> followed by e acute, well
  formed and without whitespace, comes back as it is.
\<close>

theorem sanitizeKey_removes_exactly_whitespace_witness:
  "stringRunes (sanitizeKey [CHR ''a'', CHR '' '', CHR ''b'', CHR 0x09, CHR 0xE3, CHR 0x80, CHR 0x80,
                              CHR ''c'', CHR 0xC2, CHR 0xA0, CHR 0xC3, CHR 0xA9])
     = [0x61, 0x62, 0x63, 0xE9]
   \<and> sanitizeKey [CHR ''a'', CHR ''b'', CHR 0xC3, CHR 0xA9] = [CHR ''a'', CHR ''b'', CHR 0xC3, CHR 0xA9]"
proof -
  let ?s1 = "[CHR ''a'', CHR '' '', CHR ''b'', CHR 0x09, CHR 0xE3, CHR 0x80, CHR 0x80,
              CHR ''c'', CHR 0xC2, CHR 0xA0, CHR 0xC3, CHR 0xA9]"
  let ?s2 = "[CHR ''a'', CHR ''b'', CHR 0xC3, CHR 0xA9]"
  have r1: "stringRunes ?s1 = [0x61, 0x20, 0x62, 0x09, 0x3000, 0x63, 0xA0, 0xE9]"
    by (simp add: stringRunes_def cont_def second3_def)
  have r2: "stringRunes ?s2 = [0x61, 0x62, 0xE9]"
    by (simp add: stringRunes_def cont_def)
  have v2: "utf8_ValidString ?s2"
    by (simp add: utf8_ValidString_def cont_def)
  have f2: "\<forall>r \<in> set (stringRunes ?s2). \<not> unicode_IsSpace r"
    unfolding r2 by (simp add: unicode_IsSpace_def)
  have "sanitizeKey ?s2 = ?s2"
    using sanitizeKey_removes_exactly_whitespace [of ?s2] v2 f2 by blast
  moreover have "stringRunes (sanitizeKey ?s1) = [0x61, 0x62, 0x63, 0xE9]"
    using sanitizeKey_removes_exactly_whitespace [of ?s1] unfolding r1
    by (simp add: unicode_IsSpace_def)
  ultimately show ?thesis by simp
qed

text \<open>
  Counterexample for C8 as stated: the key \<open>a<0xFF>b\<close>. It has no whitespace (its code
  points, as \<open>range\<close> yields them, are \<open>a\<close>, \<open>U+FFFD\<close> and \<open>b\<close>), and yet \<open>sanitizeKey\<close> does
  not return it: the byte \<open>0xFF\<close> comes back as the three bytes of \<open>U+FFFD\<close>.
\<close>

theorem sanitizeKey_invalid_utf8_counterexample:
  "stringRunes [CHR ''a'', CHR 0xFF, CHR ''b''] = [0x61, 0xFFFD, 0x62]
   \<and> \<not> unicode_IsSpace 0x61 \<and> \<not> unicode_IsSpace 0xFFFD \<and> \<not> unicode_IsSpace 0x62
   \<and> sanitizeKey [CHR ''a'', CHR 0xFF, CHR ''b'']
       = [CHR ''a'', CHR 0xEF, CHR 0xBF, CHR 0xBD, CHR ''b'']
   \<and> sanitizeKey [CHR ''a'', CHR 0xFF, CHR ''b''] \<noteq> [CHR ''a'', CHR 0xFF, CHR ''b'']"
  by (simp add: stringRunes_def sanitizeKey_def strings_Map_def RuneError_def
      unicode_IsSpace_def encodeRune_def char_of_eq_iff)

text \<open>
  Claim C10. Normalizing twice is the same as normalizing once:
  \<open>sanitizeKey (sanitizeKey s) = sanitizeKey s\<close> for every key \<open>s\<close>.
\<close>

theorem sanitizeKey_idempotent: "sanitizeKey (sanitizeKey s) = sanitizeKey s"
  by (rule sanitizeKey_twice)


section \<open>Traces\<close>

lemma requestedURLs_append [simp]: "requestedURLs (a @ b) = requestedURLs a @ requestedURLs b"
  by (induction a rule: requestedURLs.induct) simp_all

lemma sinkLines_append [simp]: "sinkLines (a @ b) = sinkLines a @ sinkLines b"
  by (induction a rule: sinkLines.induct) simp_all

lemma requestedURLs_Fprintln [simp]: "requestedURLs (map Fprintln ls) = []"
  by (induction ls) simp_all

lemma sinkLines_Fprintln [simp]: "sinkLines (map Fprintln ls) = ls"
  by (induction ls) simp_all

lemma requestedURLs_programEvents [simp]:
  "requestedURLs (programEvents auth S d) = [scopeURL (Handle d)]"
  by (simp add: programEvents_def procesando_def newRequest_def)

lemma sinkLines_programEvents [simp]:
  "sinkLines (programEvents auth S d) = eligibleAssets (S (Handle d))"
  by (simp add: programEvents_def procesando_def)

lemma requestedURLs_concat_programEvents [simp]:
  "requestedURLs (concat (map (programEvents auth S) ds)) = map (\<lambda>d. scopeURL (Handle d)) ds"
  by (induction ds) simp_all

lemma sinkLines_concat_programEvents [simp]:
  "sinkLines (concat (map (programEvents auth S) ds))
     = concat (map (\<lambda>d. eligibleAssets (S (Handle d))) ds)"
  by (induction ds) simp_all

lemma pageRequests_Nil [simp]: "pageRequests [] = []"
  by (simp add: pageRequests_def)

lemma pageRequests_append [simp]: "pageRequests (a @ b) = pageRequests a @ pageRequests b"
  by (simp add: pageRequests_def)

lemma isProgramsURL_programsURL [simp]: "isProgramsURL (programsURL page)"
  by (simp add: isProgramsURL_def programsURL_def)

lemma isProgramsURL_scopeURL [simp]: "\<not> isProgramsURL (scopeURL handle)"
  by (simp add: isProgramsURL_def scopeURL_def)

lemma pageRequests_programEvents [simp]:
  "pageRequests (concat (map (programEvents auth S) ds)) = []"
  by (induction ds) (simp_all add: pageRequests_def)

lemma pageRequests_Do_page [simp]:
  "pageRequests (Do (newRequest (programsURL page) auth) # tr) = programsURL page # pageRequests tr"
  by (simp add: pageRequests_def newRequest_def)


section \<open>One request, and the retry loop around it\<close>

lemma contains_unavailable [simp]:
  "strings_Contains (''API unavailable: '' @ s) ''deadline exceeded''
     = strings_Contains s ''deadline exceeded''"
  by simp


lemma retry_first_success:
  "doRequest env url auth st = (st1, Inr body)
     \<Longrightarrow> doRequestWithRetry env url auth st = (st1, Inr body)"
  by (simp add: doRequestWithRetry_def retryLoop.simps)

lemma retry_first_other_error:
  "doRequest env url auth st = (st1, Inl err) \<Longrightarrow> \<not> strings_Contains err ''deadline exceeded''
     \<Longrightarrow> doRequestWithRetry env url auth st = (st1, Inl err)"
  by (simp add: doRequestWithRetry_def retryLoop.simps)

lemma retry_first_timeout:
  assumes "doRequest env url auth st = (st1, Inl err)"
    and "strings_Contains err ''deadline exceeded''"
  shows "doRequestWithRetry env url auth st = retryLoop env url auth 1 (Some err) st1"
  unfolding doRequestWithRetry_def
  by (subst retryLoop.simps) (simp add: assms del: strings_Contains.simps)

lemma retryLoop_timeout_step:
  assumes "0 < attempt" and "attempt < 3" and "delay = 2 ^ attempt"
    and "ctxDone env st delay = None"
    and "doRequest env url auth (st @ [Sleep delay]) = (st2, Inl err)"
    and "strings_Contains err ''deadline exceeded''"
    and "attempt' = attempt + 1"
  shows "retryLoop env url auth attempt lastErr st
           = retryLoop env url auth attempt' (Some err) st2"
  using assms by (subst retryLoop.simps) (simp add: Let_def del: strings_Contains.simps)

lemma retryLoop_exhausted:
  "retryLoop env url auth 3 (Some err) st
     = (st, Inl (''despu'' @ [CHR 0xC3, CHR 0xA9] @ ''s de 3 intentos: '' @ err))"
  by (subst retryLoop.simps) simp

lemma doRequest_5xx:
  assumes "newRequestErr env url = None"
    and "clientDo env st (newRequest url auth) = DoResponse resp"
    and "500 \<le> StatusCode resp"
  shows "doRequest env url auth st
           = (st @ [Do (newRequest url auth)], Inl (''API unavailable: '' @ Status resp))"
  using assms by (simp add: doRequest_def Let_def)


lemma doRequest_trace:
  "fst (doRequest env url auth st) = st
     \<or> fst (doRequest env url auth st) = st @ [Do (newRequest url auth)]"
  by (auto simp: doRequest_def Let_def split: option.splits do_result.splits sum.splits)

lemma doRequest_urls:
  "set (requestedURLs (fst (doRequest env url auth st))) \<subseteq> set (requestedURLs st) \<union> {url}"
  using doRequest_trace [of env url auth st] by (auto simp: newRequest_def)

lemma retryLoop_urls:
  "set (requestedURLs (fst (retryLoop env url auth attempt lastErr st)))
     \<subseteq> set (requestedURLs st) \<union> {url}"
proof (induction env url auth attempt lastErr st rule: retryLoop.induct)
  case (1 env url auth attempt lastErr st)
  let ?st1 = "if attempt > 0 then st @ [Sleep (2 ^ attempt)] else st"
  have st1: "requestedURLs ?st1 = requestedURLs st" by simp
  obtain st2 r where dr: "doRequest env url auth ?st1 = (st2, r)"
    by (cases "doRequest env url auth ?st1")
  have st2: "set (requestedURLs st2) \<subseteq> set (requestedURLs st) \<union> {url}"
    using doRequest_urls [of env url auth ?st1] dr st1 by simp
  show ?case
  proof (cases "attempt < 3 \<and> (if attempt > 0 then ctxDone env st (2 ^ attempt) else None) = None")
    case False
    then show ?thesis by (subst retryLoop.simps) (auto split: option.splits)
  next
    case True
    show ?thesis
    proof (cases r)
      case (Inr body)
      with True dr st2 show ?thesis by (subst retryLoop.simps) (simp add: Let_def)
    next
      case (Inl err)
      show ?thesis
      proof (cases "strings_Contains err ''deadline exceeded''")
        case False
        with True dr st2 Inl show ?thesis by (subst retryLoop.simps) (simp add: Let_def)
      next
        case c: True
        have "set (requestedURLs (fst (retryLoop env url auth (attempt + 1) (Some err) st2)))
                \<subseteq> set (requestedURLs st2) \<union> {url}"
          using "1.IH" [of ?st1 st2 r err] True dr Inl c by simp
        with True dr st2 Inl c show ?thesis by (subst retryLoop.simps) (auto simp: Let_def)
      qed
    qed
  qed
qed

lemma doRequestWithRetry_urls:
  "set (requestedURLs (fst (doRequestWithRetry env url auth st)))
     \<subseteq> set (requestedURLs st) \<union> {url}"
  using retryLoop_urls [of env url auth 0 None st] by (simp add: doRequestWithRetry_def)

lemma doRequest_respondsOK:
  assumes "respondsOK env url auth good"
  shows "\<exists>body. doRequest env url auth st = (st @ [Do (newRequest url auth)], Inr body) \<and> good body"
proof -
  from assms obtain resp body where
    "newRequestErr env url = None" "clientDo env st (newRequest url auth) = DoResponse resp"
    "StatusCode resp < 400" "Body resp = Inr body" "good body"
    unfolding respondsOK_def by blast
  then show ?thesis by (auto simp: doRequest_def Let_def)
qed

lemma doRequestWithRetry_respondsOK:
  assumes "respondsOK env url auth good"
  shows "\<exists>body. doRequestWithRetry env url auth st = (st @ [Do (newRequest url auth)], Inr body)
           \<and> good body"
  using doRequest_respondsOK [OF assms, of st] retry_first_success by blast





text \<open>
  Claim C3, as amended. A response with a status of 500 or more makes \<open>doRequest\<close> fail
  with the error \<open>API unavailable: <status>\<close>, a text of its own (a status from 400 to 499
  gives \<open>API returned error <status>\<close>). \<open>doRequestWithRetry\<close> does not retry it: unless the
  status text itself contains \<open>deadline exceeded\<close>, it returns that error after the one
  request, without sleeping.
\<close>

theorem doRequestWithRetry_5xx_not_retried:
  assumes "newRequestErr env url = None"
    and "clientDo env st (newRequest url auth) = DoResponse resp"
    and "500 \<le> StatusCode resp"
    and "\<not> strings_Contains (Status resp) ''deadline exceeded''"
  shows "doRequest env url auth st
           = (st @ [Do (newRequest url auth)], Inl (''API unavailable: '' @ Status resp))
         \<and> doRequestWithRetry env url auth st
           = (st @ [Do (newRequest url auth)], Inl (''API unavailable: '' @ Status resp))"
proof -
  have d: "doRequest env url auth st
           = (st @ [Do (newRequest url auth)], Inl (''API unavailable: '' @ Status resp))"
    using assms(1-3) by (rule doRequest_5xx)
  have "\<not> strings_Contains (''API unavailable: '' @ Status resp) ''deadline exceeded''"
    using assms(4) by (simp only: contains_unavailable) simp
  with d show ?thesis by (simp add: retry_first_other_error)
qed

text \<open>Witness for C3 as amended: a server that answers 502 is asked once.\<close>

theorem doRequestWithRetry_5xx_not_retried_witness:
  "doRequestWithRetry (fixedEnv (respond 502 ''502 Bad Gateway'' [])) exampleURL ''dTpr'' []
     = ([Do (newRequest exampleURL ''dTpr'')], Inl ''API unavailable: 502 Bad Gateway'')"
proof -
  let ?env = "fixedEnv (respond 502 ''502 Bad Gateway'' [])"
  let ?resp = "\<lparr>StatusCode = 502, Status = ''502 Bad Gateway'', Body = Inr []\<rparr>"
  have 1: "newRequestErr ?env exampleURL = None"
    by (simp add: fixedEnv_def scriptedEnv_def)
  have 2: "clientDo ?env [] (newRequest exampleURL ''dTpr'') = DoResponse ?resp"
    by (simp add: fixedEnv_def scriptedEnv_def respond_def newRequest_def)
  have 3: "500 \<le> StatusCode ?resp" by simp
  have 4: "\<not> strings_Contains (Status ?resp) ''deadline exceeded''" by simp
  from doRequestWithRetry_5xx_not_retried [OF 1 2 3 4] show ?thesis by simp
qed

text \<open>
  Counterexample for C3 as stated: a server that answers every request with
  \<open>503 Service Unavailable\<close>. \<open>doRequestWithRetry\<close> sends one request, does not sleep and
  returns the error of that first response: the failure is not retried.
\<close>

theorem doRequestWithRetry_5xx_counterexample:
  "doRequestWithRetry (fixedEnv (respond 503 ''503 Service Unavailable'' [])) exampleURL ''dTpr'' []
     = ([Do (newRequest exampleURL ''dTpr'')], Inl ''API unavailable: 503 Service Unavailable'')
   \<and> \<not> 1 < length (requestedURLs (fst (doRequestWithRetry
            (fixedEnv (respond 503 ''503 Service Unavailable'' [])) exampleURL ''dTpr'' [])))"
proof -
  let ?env = "fixedEnv (respond 503 ''503 Service Unavailable'' [])"
  let ?resp = "\<lparr>StatusCode = 503, Status = ''503 Service Unavailable'', Body = Inr []\<rparr>"
  have "newRequestErr ?env exampleURL = None"
    by (simp add: fixedEnv_def scriptedEnv_def)
  moreover have "clientDo ?env [] (newRequest exampleURL ''dTpr'') = DoResponse ?resp"
    by (simp add: fixedEnv_def scriptedEnv_def respond_def newRequest_def)
  moreover have "500 \<le> StatusCode ?resp" by simp
  ultimately have "doRequest ?env exampleURL ''dTpr'' []
      = ([] @ [Do (newRequest exampleURL ''dTpr'')], Inl (''API unavailable: '' @ Status ?resp))"
    by (rule doRequest_5xx)
  then have "doRequestWithRetry ?env exampleURL ''dTpr'' []
      = ([Do (newRequest exampleURL ''dTpr'')], Inl ''API unavailable: 503 Service Unavailable'')"
    using retry_first_other_error [of ?env exampleURL "''dTpr''" "[]"
            "[Do (newRequest exampleURL ''dTpr'')]" "''API unavailable: 503 Service Unavailable''"]
    by simp
  then show ?thesis by simp
qed

text \<open>
  Claim C4, evaluated where the code and the claim differ: a server whose every request
  runs into the deadline. There are three requests and the last error comes back
  wrapped, as claimed, with no sleep after the third failure; but the sleep before the
  second request lasts 2 seconds and the one before the third lasts 4 seconds, where the
  claim (and the comment in the code) says 1 second and 2 seconds.
\<close>

theorem doRequestWithRetry_timeout_sleeps:
  "doRequestWithRetry (fixedEnv (DoError ''Get: context deadline exceeded'')) exampleURL ''dTpr'' []
     = ([Do (newRequest exampleURL ''dTpr''), Sleep 2,
         Do (newRequest exampleURL ''dTpr''), Sleep 4,
         Do (newRequest exampleURL ''dTpr'')],
        Inl (''despu'' @ [CHR 0xC3, CHR 0xA9] @ ''s de 3 intentos: Get: context deadline exceeded''))
   \<and> sleeps (fst (doRequestWithRetry (fixedEnv (DoError ''Get: context deadline exceeded''))
                    exampleURL ''dTpr'' [])) = [2, 4]"
proof -
  let ?env = "fixedEnv (DoError ''Get: context deadline exceeded'')"
  have d: "\<And>st. doRequest ?env exampleURL ''dTpr'' st
             = (st @ [Do (newRequest exampleURL ''dTpr'')], Inl ''Get: context deadline exceeded'')"
    by (simp add: doRequest_def fixedEnv_def scriptedEnv_def newRequest_def)
  have c: "strings_Contains ''Get: context deadline exceeded'' ''deadline exceeded''"
    by simp
  have x: "\<And>st d. ctxDone ?env st d = None"
    by (simp add: fixedEnv_def scriptedEnv_def)
  let ?e = "''Get: context deadline exceeded''"
  let ?do = "Do (newRequest exampleURL ''dTpr'')"
  have "doRequestWithRetry ?env exampleURL ''dTpr'' []
          = retryLoop ?env exampleURL ''dTpr'' 1 (Some ?e) [?do]"
    using retry_first_timeout [OF _ c, of ?env exampleURL "''dTpr''" "[]" "[?do]"] d [of "[]"]
    by simp
  also have "\<dots> = retryLoop ?env exampleURL ''dTpr'' 2 (Some ?e) [?do, Sleep 2, ?do]"
    by (rule retryLoop_timeout_step [where delay = 2]) (simp_all add: x d c del: strings_Contains.simps)
  also have "\<dots> = retryLoop ?env exampleURL ''dTpr'' 3 (Some ?e) [?do, Sleep 2, ?do, Sleep 4, ?do]"
    by (rule retryLoop_timeout_step [where delay = 4]) (simp_all add: x d c del: strings_Contains.simps)
  also have "\<dots> = ([?do, Sleep 2, ?do, Sleep 4, ?do],
        Inl (''despu'' @ [CHR 0xC3, CHR 0xA9] @ ''s de 3 intentos: Get: context deadline exceeded''))"
    by (simp add: retryLoop_exhausted)
  finally show ?thesis by simp
qed

text \<open>
  Claim C6, evaluated where the code and the claim differ: when \<open>json.Unmarshal\<close> panics,
  \<open>safeUnmarshal\<close> logs the recovered value and returns nil, not an error, and the caller
  goes on with the target as the panic left it. With a server whose first page makes the
  decoder panic on an empty target, \<open>Fetch\<close> takes the page for the empty last page and
  reports success with no program processed.
\<close>

theorem safeUnmarshal_panic_returns_nil:
  "safeUnmarshal (\<lambda>data. UnmarshalPanic r v) data st
     = (st @ [LogPrintf (''panic recuperado: ''
                @ (case r of PanicError e \<Rightarrow> e | PanicOther \<Rightarrow> ''panic''))], None, v)
   \<and> Fetch 1 panicEnv ''user:key'' []
     = Some ([Do (newRequest (programsURL 1) ''dXNlcjprZXk=''),
              LogPrintf ''panic recuperado: runtime error: index out of range''], 0, None)"
proof
  show "safeUnmarshal (\<lambda>data. UnmarshalPanic r v) data st
     = (st @ [LogPrintf (''panic recuperado: ''
                @ (case r of PanicError e \<Rightarrow> e | PanicOther \<Rightarrow> ''panic''))], None, v)"
    by (simp add: safeUnmarshal_def)
next
  have a: "EncodeToString ''user:key'' = ''dXNlcjprZXk=''"
    by (simp add: encodeStd_def)
  have d: "doRequest panicEnv (programsURL 1) ''dXNlcjprZXk='' []
             = ([Do (newRequest (programsURL 1) ''dXNlcjprZXk='')], Inr ''p1'')"
    by (simp add: doRequest_def panicEnv_def scriptedEnv_def respond_def newRequest_def)
  have u: "unmarshalPrograms panicEnv ''p1''
             = UnmarshalPanic (PanicError ''runtime error: index out of range'') []"
    by (simp add: panicEnv_def scriptedEnv_def)
  have x: "ctxDone panicEnv [] 0 = None"
    by (simp add: panicEnv_def scriptedEnv_def)
  have f: "fetchPages (Suc 0) panicEnv ''dXNlcjprZXk='' 1 0 []
     = Some ([Do (newRequest (programsURL 1) ''dXNlcjprZXk=''),
              LogPrintf ''panic recuperado: runtime error: index out of range''], 0, None)"
    by (simp add: x retry_first_success [OF d] safeUnmarshal_def u del: One_nat_def)
  show "Fetch 1 panicEnv ''user:key'' []
     = Some ([Do (newRequest (programsURL 1) ''dXNlcjprZXk=''),
              LogPrintf ''panic recuperado: runtime error: index out of range''], 0, None)"
    using f by (simp add: Fetch_def a del: EncodeToString.simps)
qed


section \<open>The programs of one page\<close>

lemma safeUnmarshal_urls [simp]:
  "requestedURLs (fst (safeUnmarshal u data st)) = requestedURLs st"
  by (simp add: safeUnmarshal_def Let_def split: unmarshal_result.splits)

lemma fetchEligibleAssets_urls:
  "set (requestedURLs (fst (fetchEligibleAssets env auth handle st)))
     \<subseteq> set (requestedURLs st) \<union> {scopeURL handle}"
proof -
  obtain st1 r where dr: "doRequestWithRetry env (scopeURL handle) auth st = (st1, r)"
    by (cases "doRequestWithRetry env (scopeURL handle) auth st")
  have "set (requestedURLs st1) \<subseteq> set (requestedURLs st) \<union> {scopeURL handle}"
    using doRequestWithRetry_urls [of env "scopeURL handle" auth st] dr by simp
  moreover have "requestedURLs (fst (fetchEligibleAssets env auth handle st)) = requestedURLs st1"
  proof (cases r)
    case (Inl e)
    with dr show ?thesis by (simp add: fetchEligibleAssets_def)
  next
    case (Inr body)
    obtain st2 e pg where su: "safeUnmarshal (unmarshalScope env) body st1 = (st2, e, pg)"
      by (cases "safeUnmarshal (unmarshalScope env) body st1")
    have "requestedURLs st2 = requestedURLs st1"
      using safeUnmarshal_urls [of "unmarshalScope env" body st1] su by simp
    with dr Inr su show ?thesis by (cases e) (simp_all add: fetchEligibleAssets_def)
  qed
  ultimately show ?thesis by simp
qed

lemma fetchPrograms_urls:
  "set (requestedURLs (fst (fetchPrograms env auth ds processed st)))
     \<subseteq> set (requestedURLs st) \<union> {scopeURL (Handle d) | d. d \<in> set ds \<and> OffersBounties d}"
proof (induction ds arbitrary: processed st)
  case Nil
  show ?case by simp
next
  case (Cons d ds)
  show ?case
  proof (cases "OffersBounties d")
    case False
    with Cons.IH [of processed st] show ?thesis by auto
  next
    case True
    let ?st1 = "st @ [Stdout (''Procesando: '' @ Handle d @ [CHR 0x0A])]"
    obtain st2 r where fe: "fetchEligibleAssets env auth (Handle d) ?st1 = (st2, r)"
      by (cases "fetchEligibleAssets env auth (Handle d) ?st1")
    have st2: "set (requestedURLs st2) \<subseteq> set (requestedURLs st) \<union> {scopeURL (Handle d)}"
      using fetchEligibleAssets_urls [of env auth "Handle d" ?st1] fe by simp
    show ?thesis
    proof (cases r)
      case (Inl err)
      with True fe st2 show ?thesis by (auto simp: Let_def)
    next
      case (Inr assets)
      have "set (requestedURLs (fst (fetchPrograms env auth ds (processed + 1)
                                        (st2 @ map Fprintln assets))))
              \<subseteq> set (requestedURLs st2)
                  \<union> {scopeURL (Handle d) | d. d \<in> set ds \<and> OffersBounties d}"
        using Cons.IH [of "processed + 1" "st2 @ map Fprintln assets"] by simp
      with True fe st2 Inr show ?thesis by (auto simp: Let_def)
    qed
  qed
qed

lemma collectAssets_filter:
  "collectAssets ds assets = assets @ eligibleAssets ds"
  by (induction ds arbitrary: assets) (simp_all add: eligibleAssets_def)

lemma fetchEligibleAssets_servesScope:
  assumes "servesScope env auth handle entries"
  shows "fetchEligibleAssets env auth handle st =
           (st @ [Do (newRequest (scopeURL handle) auth)], Inr (eligibleAssets entries))"
proof -
  from assms have "respondsOK env (scopeURL handle) auth
                     (\<lambda>body. unmarshalScope env body = Unmarshalled entries)"
    by (simp add: servesScope_def)
  from doRequestWithRetry_respondsOK [OF this, of st] obtain body where
    "doRequestWithRetry env (scopeURL handle) auth st
       = (st @ [Do (newRequest (scopeURL handle) auth)], Inr body)"
    "unmarshalScope env body = Unmarshalled entries" by blast
  then show ?thesis
    by (simp add: fetchEligibleAssets_def safeUnmarshal_def collectAssets_filter)
qed

lemma fetchPrograms_success:
  assumes "\<forall>d \<in> set ds. OffersBounties d \<longrightarrow> servesScope env auth (Handle d) (S (Handle d))"
  shows "fetchPrograms env auth ds processed st =
           (st @ concat (map (programEvents auth S) (filter OffersBounties ds)),
            processed + length (filter OffersBounties ds), None)"
  using assms
proof (induction ds arbitrary: processed st)
  case Nil
  show ?case by simp
next
  case (Cons d ds)
  then have IH: "\<And>processed st. fetchPrograms env auth ds processed st =
           (st @ concat (map (programEvents auth S) (filter OffersBounties ds)),
            processed + length (filter OffersBounties ds), None)" by simp
  show ?case
  proof (cases "OffersBounties d")
    case False
    then show ?thesis by (simp add: IH)
  next
    case True
    with Cons.prems have "servesScope env auth (Handle d) (S (Handle d))"
      by simp
    note fe = fetchEligibleAssets_servesScope [OF this]
    have "programEvents auth S d =
        Stdout (''Procesando: '' @ Handle d @ [CHR 0x0A]) # Do (newRequest (scopeURL (Handle d)) auth)
          # map Fprintln (eligibleAssets (S (Handle d)))"
      by (simp add: programEvents_def procesando_def)
    then show ?thesis using True
      by (simp add: IH Let_def fe)
  qed
qed

lemma fetchPrograms_append:
  "fetchPrograms env auth (xs @ ys) processed st =
     (case fetchPrograms env auth xs processed st of
        (st', n, None) \<Rightarrow> fetchPrograms env auth ys n st'
      | (st', n, Some err) \<Rightarrow> (st', n, Some err))"
proof (induction xs arbitrary: processed st)
  case Nil
  show ?case by simp
next
  case (Cons d xs)
  show ?case by (simp add: Cons.IH Let_def split: prod.splits sum.splits)
qed

lemma demoEnv_scope_acme: "servesScope demoEnv auth ''acme'' (demoScope ''acme'')"
  by (simp add: servesScope_def respondsOK_def demoEnv_def scriptedEnv_def respond_def
      newRequest_def programsURL_def scopeURL_def itoa.simps digit_def)

lemma demoEnv_scope_corp: "servesScope demoEnv auth ''corp'' (demoScope ''corp'')"
  by (simp add: servesScope_def respondsOK_def demoEnv_def scriptedEnv_def respond_def
      newRequest_def programsURL_def scopeURL_def itoa.simps digit_def)

lemma demoEnv_scope_x: "servesScope demoEnv auth ''x'' (demoScope ''x'')"
  by (simp add: servesScope_def respondsOK_def demoEnv_def scriptedEnv_def respond_def
      newRequest_def programsURL_def scopeURL_def itoa.simps digit_def)

text \<open>
  Claim C1. Whatever the server does, the programs of a page cause requests only for
  the scope URLs of the programs that offer bounties. When the scope of each of those
  programs is served (for the handle \<open>h\<close> the entries \<open>S h\<close>), the loop ends without error
  and has sent one scope request per program that offers bounties, in page order; has
  written to the sink, for each of them in turn, the asset identifiers of exactly the
  entries eligible for bounty, in the order of the scope page, one line each; and has
  added to the counter the number of programs that offer bounties, not of assets.
\<close>

theorem fetchPrograms_eligibility:
  "set (requestedURLs (fst (fetchPrograms env auth ds processed st)))
     \<subseteq> set (requestedURLs st) \<union> {scopeURL (Handle d) | d. d \<in> set ds \<and> OffersBounties d}
   \<and> ((\<forall>d \<in> set ds. OffersBounties d \<longrightarrow> servesScope env auth (Handle d) (S (Handle d)))
      \<longrightarrow> (\<exists>st'. fetchPrograms env auth ds processed st
                   = (st', processed + length (filter OffersBounties ds), None)
              \<and> requestedURLs st'
                   = requestedURLs st @ map (\<lambda>d. scopeURL (Handle d)) (filter OffersBounties ds)
              \<and> sinkLines st'
                   = sinkLines st @ concat (map (\<lambda>d. eligibleAssets (S (Handle d)))
                                              (filter OffersBounties ds))))"
proof (intro conjI impI)
  show "set (requestedURLs (fst (fetchPrograms env auth ds processed st)))
     \<subseteq> set (requestedURLs st) \<union> {scopeURL (Handle d) | d. d \<in> set ds \<and> OffersBounties d}"
    by (rule fetchPrograms_urls)
next
  assume "\<forall>d \<in> set ds. OffersBounties d \<longrightarrow> servesScope env auth (Handle d) (S (Handle d))"
  from fetchPrograms_success [OF this, of processed st]
  show "\<exists>st'. fetchPrograms env auth ds processed st
                   = (st', processed + length (filter OffersBounties ds), None)
              \<and> requestedURLs st'
                   = requestedURLs st @ map (\<lambda>d. scopeURL (Handle d)) (filter OffersBounties ds)
              \<and> sinkLines st'
                   = sinkLines st @ concat (map (\<lambda>d. eligibleAssets (S (Handle d)))
                                              (filter OffersBounties ds))"
    by simp
qed

text \<open>
  Witness for C1: the programs \<open>y\<close> (no bounties) and \<open>x\<close> (bounties), where the scope of
  \<open>x\<close> holds \<open>a.com\<close> (not eligible) and \<open>b.com\<close> (eligible). Only the scope of \<open>x\<close> is
  requested, only \<open>b.com\<close> is written, and the counter goes from 0 to 1.
\<close>

theorem fetchPrograms_eligibility_witness:
  "requestedURLs (fst (fetchPrograms demoEnv ''dTpr'' [prog ''y'' False, prog ''x'' True] 0 []))
     = [scopeURL ''x'']
   \<and> sinkLines (fst (fetchPrograms demoEnv ''dTpr'' [prog ''y'' False, prog ''x'' True] 0 []))
     = [''b.com'']
   \<and> snd (fetchPrograms demoEnv ''dTpr'' [prog ''y'' False, prog ''x'' True] 0 []) = (1, None)"
proof -
  let ?ds = "[prog ''y'' False, prog ''x'' True]"
  have h: "\<forall>d \<in> set ?ds. OffersBounties d \<longrightarrow> servesScope demoEnv ''dTpr'' (Handle d) (demoScope (Handle d))"
    by (simp add: prog_def demoEnv_scope_x)
  from fetchPrograms_eligibility [of demoEnv "''dTpr''" ?ds 0 "[]" demoScope] h
  obtain st' where
    "fetchPrograms demoEnv ''dTpr'' ?ds 0 [] = (st', 0 + length (filter OffersBounties ?ds), None)"
    "requestedURLs st' = requestedURLs [] @ map (\<lambda>d. scopeURL (Handle d)) (filter OffersBounties ?ds)"
    "sinkLines st' = sinkLines [] @ concat (map (\<lambda>d. eligibleAssets (demoScope (Handle d)))
                                              (filter OffersBounties ?ds))"
    by blast
  then show ?thesis
    by (simp add: prog_def demoScope_def eligibleAssets_def entry_def)
qed


section \<open>Credentials\<close>

lemma SplitN2_no_sep: "sep \<notin> set s \<Longrightarrow> strings_SplitN2 s sep = [s]"
proof -
  assume "sep \<notin> set s"
  then have "dropWhile (\<lambda>c. c \<noteq> sep) s = []" by auto
  then show ?thesis unfolding strings_SplitN2.simps by (simp only: list.case)
qed

lemma SplitN2_sep: "sep \<notin> set a \<Longrightarrow> strings_SplitN2 (a @ sep # b) sep = [a, b]"
proof -
  assume h: "sep \<notin> set a"
  then have "dropWhile (\<lambda>c. c \<noteq> sep) (a @ sep # b) = sep # b"
    by (subst dropWhile_append2) auto
  moreover from h have "takeWhile (\<lambda>c. c \<noteq> sep) (a @ sep # b) = a"
    by (subst takeWhile_append2) auto
  ultimately show ?thesis by simp
qed

text \<open>
  Claim C9. A credential string without \<open>:\<close> makes \<open>Fetch\<close> fail at once with the error
  \<open>formato de credenciales invalido, debe ser username:apikey\<close> (its \<open>a\<close> with an acute
  accent, two bytes in UTF-8) and the count 0. The
  world is unchanged: no request was sent, nothing was written, nothing was retried.
\<close>

theorem Fetch_rejects_credentials_without_separator:
  "CHR '':'' \<notin> set apiKey \<Longrightarrow>
     Fetch fuel env apiKey st
       = Some (st, 0, Some (''formato de credenciales inv'' @ [CHR 0xC3, CHR 0xA1]
                             @ ''lido, debe ser username:apikey''))"
  by (simp add: Fetch_def SplitN2_no_sep del: strings_SplitN2.simps)

text \<open>Witness for C9: the credential \<open>userkey\<close>, against a server that would answer.\<close>

theorem Fetch_rejects_credentials_without_separator_witness:
  "CHR '':'' \<notin> set ''userkey''
   \<and> Fetch 3 demoEnv ''userkey'' []
       = Some ([], 0, Some (''formato de credenciales inv'' @ [CHR 0xC3, CHR 0xA1]
                             @ ''lido, debe ser username:apikey''))"
proof -
  have h: "CHR '':'' \<notin> set ''userkey''" by simp
  from Fetch_rejects_credentials_without_separator [OF h, of 3 demoEnv "[]"] h
  show ?thesis by simp
qed


section \<open>The pages\<close>

lemma fetchPages_until_empty:
  assumes ctx: "\<forall>tr. ctxDone env tr 0 = None"
    and pages: "\<forall>i. page \<le> i \<and> i \<le> lastp \<longrightarrow> servesPage env auth i (P i)"
    and nonempty: "\<forall>i. page \<le> i \<and> i < lastp \<longrightarrow> P i \<noteq> []"
    and empty: "P lastp = []"
    and scopes: "\<forall>i d. page \<le> i \<and> i < lastp \<and> d \<in> set (P i) \<and> OffersBounties d
                   \<longrightarrow> servesScope env auth (Handle d) (S (Handle d))"
    and le: "page \<le> lastp" and fuel: "lastp - page < fuel"
  shows "\<exists>st'. fetchPages fuel env auth page processed st =
            Some (st', processed + sum_list (map (\<lambda>i. length (filter OffersBounties (P i)))
                                               [page..<lastp]), None)
          \<and> pageRequests st' = pageRequests st @ map programsURL [page..<Suc lastp]"
  using pages nonempty scopes le fuel
proof (induction "lastp - page" arbitrary: page fuel processed st)
  case 0
  then have eq: "page = lastp" by simp
  from "0.prems" obtain f where f: "fuel = Suc f" by (cases fuel) auto
  from "0.prems"(1) eq have "respondsOK env (programsURL page) auth
                               (\<lambda>b. unmarshalPrograms env b = Unmarshalled (P page))"
    by (simp add: servesPage_def)
  from doRequestWithRetry_respondsOK [OF this, of st] obtain body where
    b: "doRequestWithRetry env (programsURL page) auth st
          = (st @ [Do (newRequest (programsURL page) auth)], Inr body)"
       "unmarshalPrograms env body = Unmarshalled (P page)" by blast
  show ?case using ctx b empty eq f
    by (simp add: safeUnmarshal_def)
next
  case (Suc n)
  then have lt: "page < lastp" by simp
  from Suc.prems obtain f where f: "fuel = Suc f" by (cases fuel) auto
  with Suc.prems Suc.hyps have f': "lastp - Suc page < f" by simp
  from Suc.prems(1) lt have "respondsOK env (programsURL page) auth
                               (\<lambda>b. unmarshalPrograms env b = Unmarshalled (P page))"
    by (simp add: servesPage_def)
  from doRequestWithRetry_respondsOK [OF this, of st] obtain body where
    b: "doRequestWithRetry env (programsURL page) auth st
          = (st @ [Do (newRequest (programsURL page) auth)], Inr body)"
       "unmarshalPrograms env body = Unmarshalled (P page)" by blast
  from Suc.prems(2) lt have ne: "P page \<noteq> []" by simp
  from Suc.prems(3) lt
  have "\<forall>d \<in> set (P page). OffersBounties d \<longrightarrow> servesScope env auth (Handle d) (S (Handle d))"
    by auto
  note fp = fetchPrograms_success [OF this]
  let ?st3 = "st @ [Do (newRequest (programsURL page) auth)]
                 @ concat (map (programEvents auth S) (filter OffersBounties (P page)))"
  let ?n = "processed + length (filter OffersBounties (P page))"
  have hn: "n = lastp - Suc page" using Suc.hyps by simp
  have p1: "\<forall>i. Suc page \<le> i \<and> i \<le> lastp \<longrightarrow> servesPage env auth i (P i)"
    using Suc.prems(1) by (meson Suc_leD)
  have p2: "\<forall>i. Suc page \<le> i \<and> i < lastp \<longrightarrow> P i \<noteq> []"
    using Suc.prems(2) by (meson Suc_leD)
  have p3: "\<forall>i d. Suc page \<le> i \<and> i < lastp \<and> d \<in> set (P i) \<and> OffersBounties d
              \<longrightarrow> servesScope env auth (Handle d) (S (Handle d))"
    using Suc.prems(3) by (meson Suc_leD)
  have p4: "Suc page \<le> lastp" using lt by simp
  from Suc.hyps(1) [OF hn p1 p2 p3 p4 f', of ?n ?st3]
  obtain st' where r: "fetchPages f env auth (Suc page) ?n ?st3 =
       Some (st', ?n + sum_list (map (\<lambda>i. length (filter OffersBounties (P i))) [Suc page..<lastp]),
             None)"
       "pageRequests st' = pageRequests ?st3 @ map programsURL [Suc page..<Suc lastp]"
    by blast
  have u1: "[page..<lastp] = page # [Suc page..<lastp]" using lt by (simp add: upt_conv_Cons)
  have u2: "[page..<Suc lastp] = page # [Suc page..<Suc lastp]" using lt by (simp add: upt_conv_Cons)
  show ?case using ctx b ne f fp r unfolding u1 u2
    by (simp add: safeUnmarshal_def)
qed

lemma demoEnv_page_1: "servesPage demoEnv auth 1 (demoPage 1)"
  by (simp add: servesPage_def respondsOK_def demoEnv_def scriptedEnv_def respond_def
      newRequest_def programsURL_def itoa.simps digit_def)

lemma demoEnv_page_2: "servesPage demoEnv auth 2 (demoPage 2)"
  by (simp add: servesPage_def respondsOK_def demoEnv_def scriptedEnv_def respond_def
      newRequest_def programsURL_def itoa.simps digit_def)

lemma demoEnv_page_3: "servesPage demoEnv auth 3 (demoPage 3)"
  by (simp add: servesPage_def respondsOK_def demoEnv_def scriptedEnv_def respond_def
      newRequest_def programsURL_def itoa.simps digit_def)

text \<open>
  Claim C2. Let the context not be done, let the pages 1 to \<open>lastp\<close> be served, the pages
  before \<open>lastp\<close> with programs and the page \<open>lastp\<close> with none, and let the scope of every
  program on them that offers bounties be served. Then \<open>Fetch\<close>, given at least \<open>lastp\<close>
  rounds, returns with a nil error; its requests for pages are those for the pages
  1, 2, ..., \<open>lastp\<close>, in this order and nothing more: it stops at the first page without
  programs. The count it returns is the number of programs that offer bounties.
\<close>

theorem Fetch_stops_at_first_empty_page:
  assumes "\<forall>tr. ctxDone env tr 0 = None"
    and "CHR '':'' \<notin> set username"
    and "auth = EncodeToString (username @ '':'' @ key)"
    and "1 \<le> lastp" and "lastp \<le> fuel"
    and "\<forall>i. 1 \<le> i \<and> i \<le> lastp \<longrightarrow> servesPage env auth i (P i)"
    and "\<forall>i. 1 \<le> i \<and> i < lastp \<longrightarrow> P i \<noteq> []"
    and "P lastp = []"
    and "\<forall>i d. 1 \<le> i \<and> i < lastp \<and> d \<in> set (P i) \<and> OffersBounties d
           \<longrightarrow> servesScope env auth (Handle d) (S (Handle d))"
  shows "\<exists>st'. Fetch fuel env (username @ '':'' @ key) st
                 = Some (st', sum_list (map (\<lambda>i. length (filter OffersBounties (P i))) [1..<lastp]),
                         None)
           \<and> pageRequests st' = pageRequests st @ map programsURL [1..<Suc lastp]"
proof -
  have split: "strings_SplitN2 (username @ '':'' @ key) (CHR '':'') = [username, key]"
    using SplitN2_sep [OF assms(2), of key] by simp
  have "lastp - 1 < fuel" using assms(4,5) by simp
  from fetchPages_until_empty [OF assms(1) assms(6) assms(7) assms(8) assms(9) assms(4) this, of 0 st]
  obtain st' where
    "fetchPages fuel env auth 1 0 st
       = Some (st', 0 + sum_list (map (\<lambda>i. length (filter OffersBounties (P i))) [1..<lastp]), None)"
    "pageRequests st' = pageRequests st @ map programsURL [1..<Suc lastp]"
    by blast
  then show ?thesis
    unfolding Fetch_def split using assms(3) by (simp add: Let_def)
qed

text \<open>
  Witness for C2: pages with 3, 2 and 0 programs. \<open>Fetch\<close> asks for the pages 1, 2 and 3,
  three page requests, and returns the count 3 (the programs \<open>acme\<close>, \<open>corp\<close> and \<open>x\<close>)
  with a nil error.
\<close>

theorem Fetch_stops_at_first_empty_page_witness:
  "map_option (\<lambda>(st', n, err). (pageRequests st', length (pageRequests st'), n, err))
     (Fetch 3 demoEnv ''user:key'' [])
   = Some ([programsURL 1, programsURL 2, programsURL 3], 3, 3, None)"
proof -
  let ?auth = "EncodeToString (''user'' @ '':'' @ ''key'')"
  have ctx: "\<forall>tr. ctxDone demoEnv tr 0 = None"
    by (simp add: demoEnv_def scriptedEnv_def)
  have user: "CHR '':'' \<notin> set ''user''" by simp
  have pages: "\<forall>i. 1 \<le> i \<and> i \<le> 3 \<longrightarrow> servesPage demoEnv ?auth i (demoPage i)"
  proof (intro allI impI)
    fix i :: nat
    assume "1 \<le> i \<and> i \<le> 3"
    then have "i = 1 \<or> i = 2 \<or> i = 3" by arith
    then show "servesPage demoEnv ?auth i (demoPage i)"
      using demoEnv_page_1 demoEnv_page_2 demoEnv_page_3 by blast
  qed
  have nonempty: "\<forall>i. 1 \<le> i \<and> i < 3 \<longrightarrow> demoPage i \<noteq> []"
  proof (intro allI impI)
    fix i :: nat
    assume "1 \<le> i \<and> i < 3"
    then have "i = 1 \<or> i = 2" by arith
    then show "demoPage i \<noteq> []" by (auto simp: demoPage_def)
  qed
  have empty: "demoPage 3 = []" by (simp add: demoPage_def)
  have scopes: "\<forall>i d. 1 \<le> i \<and> i < 3 \<and> d \<in> set (demoPage i) \<and> OffersBounties d
                  \<longrightarrow> servesScope demoEnv ?auth (Handle d) (demoScope (Handle d))"
  proof (intro allI impI)
    fix i :: nat and d
    assume h: "1 \<le> i \<and> i < 3 \<and> d \<in> set (demoPage i) \<and> OffersBounties d"
    then have "i = 1 \<or> i = 2" by arith
    with h have "Handle d = ''acme'' \<or> Handle d = ''corp'' \<or> Handle d = ''x''"
      by (auto simp: demoPage_def prog_def)
    then show "servesScope demoEnv ?auth (Handle d) (demoScope (Handle d))"
      using demoEnv_scope_acme demoEnv_scope_corp demoEnv_scope_x by metis
  qed
  have count: "sum_list (map (\<lambda>i. length (filter OffersBounties (demoPage i))) [1..<3]) = 3"
    by (simp add: upt_conv_Cons demoPage_def prog_def)
  have "[1..<Suc 3] = [1, 2, 3]"
    by (simp add: upt_conv_Cons numeral_2_eq_2 numeral_3_eq_3)
  then have urls: "map programsURL [1..<Suc 3] = [programsURL 1, programsURL 2, programsURL 3]"
    by (simp del: upt_Suc)
  from Fetch_stops_at_first_empty_page [OF ctx user refl _ _ pages nonempty empty scopes, of 3 "[]"]
  obtain st' where
    "Fetch 3 demoEnv (''user'' @ '':'' @ ''key'') []
       = Some (st', sum_list (map (\<lambda>i. length (filter OffersBounties (demoPage i))) [1..<3]), None)"
    "pageRequests st' = pageRequests [] @ map programsURL [1..<Suc 3]"
    by auto
  then show ?thesis
    unfolding count urls by simp
qed

lemma fetchEligibleAssets_request_fails:
  assumes "doRequestWithRetry env (scopeURL handle) auth st = (st', Inl err)"
  shows "fetchEligibleAssets env auth handle st = (st', Inl err)"
  using assms by (simp add: fetchEligibleAssets_def)

lemma fetchEligibleAssets_decode_fails:
  assumes "doRequestWithRetry env (scopeURL handle) auth st = (st', Inr body)"
    and "unmarshalScope env body = UnmarshalError cause pg"
  shows "fetchEligibleAssets env auth handle st = (st', Inl (''JSON decode failed: '' @ cause))"
  using assms by (simp add: fetchEligibleAssets_def safeUnmarshal_def)

text \<open>
  Claim C7. Let the context not be done, let the page be served with the programs
  \<open>before\<close>, then \<open>d\<close>, then \<open>rest\<close>, let the scopes of the programs in \<open>before\<close> that offer
  bounties be served, and let \<open>d\<close> offer bounties. Let the scope of \<open>d\<close> fail: either the
  request for it fails with the error \<open>err\<close>, or it succeeds with a body on which
  \<open>json.Unmarshal\<close> returns an error, \<open>err\<close> then being \<open>JSON decode failed:\<close> followed by
  that error. Then \<open>Fetch\<close> returns at once: the world is as the scope request for \<open>d\<close>
  left it (nothing is done for the programs in \<open>rest\<close> nor for later pages), the error is
  \<open>handle <handle of d> failed: err\<close>, and the count is the one reached before \<open>d\<close>: the
  count at the start of the page plus the programs in \<open>before\<close> that offer bounties.
\<close>

theorem Fetch_aborts_on_scope_failure:
  assumes "ctxDone env st 0 = None"
    and "servesPage env auth page (before @ d # rest)"
    and "\<forall>p \<in> set before. OffersBounties p \<longrightarrow> servesScope env auth (Handle p) (S (Handle p))"
    and "OffersBounties d"
    and "st3 = st @ Do (newRequest (programsURL page) auth)
                 # concat (map (programEvents auth S) (filter OffersBounties before))
                 @ [Stdout (''Procesando: '' @ Handle d @ [CHR 0x0A])]"
    and "doRequestWithRetry env (scopeURL (Handle d)) auth st3 = (st4, Inl err)
         \<or> (\<exists>body cause pg.
               doRequestWithRetry env (scopeURL (Handle d)) auth st3 = (st4, Inr body)
               \<and> unmarshalScope env body = UnmarshalError cause pg
               \<and> err = ''JSON decode failed: '' @ cause)"
  shows "fetchPages (Suc fuel) env auth page processed st
           = Some (st4, processed + length (filter OffersBounties before),
                   Some (''handle '' @ Handle d @ '' failed: '' @ err))"
proof -
  let ?st1 = "st @ [Do (newRequest (programsURL page) auth)]"
  let ?st2 = "?st1 @ concat (map (programEvents auth S) (filter OffersBounties before))"
  let ?n = "processed + length (filter OffersBounties before)"
  from assms(2) have "respondsOK env (programsURL page) auth
                        (\<lambda>b. unmarshalPrograms env b = Unmarshalled (before @ d # rest))"
    by (simp add: servesPage_def)
  from doRequestWithRetry_respondsOK [OF this, of st] obtain body where
    b: "doRequestWithRetry env (programsURL page) auth st = (?st1, Inr body)"
       "unmarshalPrograms env body = Unmarshalled (before @ d # rest)" by blast
  have pre: "fetchPrograms env auth before processed ?st1 = (?st2, ?n, None)"
    by (rule fetchPrograms_success [OF assms(3)])
  have st3: "st3 = ?st2 @ [Stdout (''Procesando: '' @ Handle d @ [CHR 0x0A])]"
    using assms(5) by simp
  have "fetchEligibleAssets env auth (Handle d) st3 = (st4, Inl err)"
    using assms(6)
  proof
    assume "doRequestWithRetry env (scopeURL (Handle d)) auth st3 = (st4, Inl err)"
    then show ?thesis by (rule fetchEligibleAssets_request_fails)
  next
    assume "\<exists>body cause pg.
               doRequestWithRetry env (scopeURL (Handle d)) auth st3 = (st4, Inr body)
               \<and> unmarshalScope env body = UnmarshalError cause pg
               \<and> err = ''JSON decode failed: '' @ cause"
    then obtain body cause pg where
      r: "doRequestWithRetry env (scopeURL (Handle d)) auth st3 = (st4, Inr body)"
      and u: "unmarshalScope env body = UnmarshalError cause pg"
      and e: "err = ''JSON decode failed: '' @ cause"
      by blast
    from fetchEligibleAssets_decode_fails [OF r u] show ?thesis by (simp only: e)
  qed
  then have fe: "fetchEligibleAssets env auth (Handle d)
              (?st2 @ [Stdout (''Procesando: '' @ Handle d @ [CHR 0x0A])]) = (st4, Inl err)"
    by (simp only: st3)
  have "fetchPrograms env auth (before @ d # rest) processed ?st1
          = (st4, ?n, Some (''handle '' @ Handle d @ '' failed: '' @ err))"
    using pre assms(4) fe by (simp add: fetchPrograms_append Let_def)
  with assms(1) b show ?thesis by (simp add: safeUnmarshal_def)
qed

text \<open>
  Witness for C7. First a page with the programs \<open>acme\<close>, \<open>ghost\<close> and \<open>corp\<close>, all offering
  bounties, on a server that has no scope for \<open>ghost\<close>: \<open>Fetch\<close> handles \<open>acme\<close>, fails on
  the 404 for \<open>ghost\<close> and stops there, with the count 1. Then a page with \<open>beta\<close> (no
  bounties), \<open>acme\<close> and \<open>corp\<close>, on a server that answers the scope of \<open>acme\<close> with a body
  that is not JSON: \<open>Fetch\<close> fails on the decoding and stops there, with the count 0. In
  both runs nothing is requested for \<open>corp\<close> and no second page is asked for.
\<close>

theorem Fetch_aborts_on_scope_failure_witness:
  "Fetch 1 ghostEnv ''user:key'' []
     = Some ([Do (newRequest (programsURL 1) ''dXNlcjprZXk=''),
              Stdout (''Procesando: acme'' @ [CHR 0x0A]),
              Do (newRequest (scopeURL ''acme'') ''dXNlcjprZXk=''),
              Fprintln ''api.acme.com'',
              Stdout (''Procesando: ghost'' @ [CHR 0x0A]),
              Do (newRequest (scopeURL ''ghost'') ''dXNlcjprZXk='')],
             1, Some ''handle ghost failed: API returned error 404 Not Found'')
   \<and> Fetch 1 badJsonEnv ''user:key'' []
     = Some ([Do (newRequest (programsURL 1) ''dXNlcjprZXk=''),
              Stdout (''Procesando: acme'' @ [CHR 0x0A]),
              Do (newRequest (scopeURL ''acme'') ''dXNlcjprZXk='')],
             0, Some (''handle acme failed: JSON decode failed: ''
                        @ ''invalid character < looking for beginning of value''))"
proof
  let ?A = "''dXNlcjprZXk=''"
  let ?st3 = "[Do (newRequest (programsURL 1) ?A), Stdout (''Procesando: acme'' @ [CHR 0x0A]),
               Do (newRequest (scopeURL ''acme'') ?A), Fprintln ''api.acme.com'',
               Stdout (''Procesando: ghost'' @ [CHR 0x0A])]"
  let ?st4 = "?st3 @ [Do (newRequest (scopeURL ''ghost'') ?A)]"
  let ?d = "prog ''ghost'' True"
  have a: "EncodeToString ''user:key'' = ?A"
    by (simp add: encodeStd_def)
  have x: "ctxDone ghostEnv [] 0 = None"
    by (simp add: ghostEnv_def scriptedEnv_def)
  have pg: "servesPage ghostEnv ?A 1 ([prog ''acme'' True] @ ?d # [prog ''corp'' True])"
    by (simp add: servesPage_def respondsOK_def ghostEnv_def scriptedEnv_def respond_def
        newRequest_def programsURL_def scopeURL_def itoa.simps digit_def)
  have "servesScope ghostEnv ?A ''acme'' (demoScope ''acme'')"
    by (simp add: servesScope_def respondsOK_def ghostEnv_def scriptedEnv_def respond_def
        newRequest_def programsURL_def scopeURL_def itoa.simps digit_def)
  then have sc: "\<forall>p \<in> set [prog ''acme'' True].
               OffersBounties p \<longrightarrow> servesScope ghostEnv ?A (Handle p) (demoScope (Handle p))"
    by (simp add: prog_def)
  have ob: "OffersBounties ?d" by (simp add: prog_def)
  have st3: "?st3 = [] @ Do (newRequest (programsURL 1) ?A)
                 # concat (map (programEvents ?A demoScope) (filter OffersBounties [prog ''acme'' True]))
                 @ [Stdout (''Procesando: '' @ Handle ?d @ [CHR 0x0A])]"
    by (simp add: prog_def programEvents_def procesando_def eligibleAssets_def demoScope_def
        entry_def)
  have "doRequest ghostEnv (scopeURL (Handle ?d)) ?A ?st3
          = (?st4, Inl ''API returned error 404 Not Found'')"
    by (simp add: doRequest_def ghostEnv_def scriptedEnv_def respond_def newRequest_def
        programsURL_def scopeURL_def itoa.simps digit_def prog_def)
  then have "doRequestWithRetry ghostEnv (scopeURL (Handle ?d)) ?A ?st3
          = (?st4, Inl ''API returned error 404 Not Found'')"
    by (rule retry_first_other_error) simp
  then have fail: "doRequestWithRetry ghostEnv (scopeURL (Handle ?d)) ?A ?st3
            = (?st4, Inl ''API returned error 404 Not Found'')
         \<or> (\<exists>body cause pg.
               doRequestWithRetry ghostEnv (scopeURL (Handle ?d)) ?A ?st3 = (?st4, Inr body)
               \<and> unmarshalScope ghostEnv body = UnmarshalError cause pg
               \<and> ''API returned error 404 Not Found'' = ''JSON decode failed: '' @ cause)"
    by (rule disjI1)
  from Fetch_aborts_on_scope_failure [OF x pg sc ob st3 fail, of 0 0]
  have pages: "fetchPages 1 ghostEnv ?A 1 0 []
          = Some (?st4, 1, Some ''handle ghost failed: API returned error 404 Not Found'')"
    by (simp add: prog_def del: fetchPages.simps)
  have "Fetch 1 ghostEnv ''user:key'' [] = fetchPages 1 ghostEnv ?A 1 0 []"
    by (simp add: Fetch_def a del: EncodeToString.simps fetchPages.simps)
  with pages show "Fetch 1 ghostEnv ''user:key'' []
     = Some ([Do (newRequest (programsURL 1) ?A),
              Stdout (''Procesando: acme'' @ [CHR 0x0A]),
              Do (newRequest (scopeURL ''acme'') ?A),
              Fprintln ''api.acme.com'',
              Stdout (''Procesando: ghost'' @ [CHR 0x0A]),
              Do (newRequest (scopeURL ''ghost'') ?A)],
             1, Some ''handle ghost failed: API returned error 404 Not Found'')"
    by simp
next
  let ?A = "''dXNlcjprZXk=''"
  let ?st3 = "[Do (newRequest (programsURL 1) ?A), Stdout (''Procesando: acme'' @ [CHR 0x0A])]"
  let ?st4 = "?st3 @ [Do (newRequest (scopeURL ''acme'') ?A)]"
  let ?d = "prog ''acme'' True"
  let ?cause = "''invalid character < looking for beginning of value''"
  have a: "EncodeToString ''user:key'' = ?A"
    by (simp add: encodeStd_def)
  have x: "ctxDone badJsonEnv [] 0 = None"
    by (simp add: badJsonEnv_def scriptedEnv_def)
  have pg: "servesPage badJsonEnv ?A 1 ([prog ''beta'' False] @ ?d # [prog ''corp'' True])"
    by (simp add: servesPage_def respondsOK_def badJsonEnv_def scriptedEnv_def respond_def
        newRequest_def programsURL_def scopeURL_def itoa.simps digit_def)
  have sc: "\<forall>p \<in> set [prog ''beta'' False].
               OffersBounties p \<longrightarrow> servesScope badJsonEnv ?A (Handle p) (demoScope (Handle p))"
    by (simp add: prog_def)
  have ob: "OffersBounties ?d" by (simp add: prog_def)
  have st3: "?st3 = [] @ Do (newRequest (programsURL 1) ?A)
                 # concat (map (programEvents ?A demoScope) (filter OffersBounties [prog ''beta'' False]))
                 @ [Stdout (''Procesando: '' @ Handle ?d @ [CHR 0x0A])]"
    by (simp add: prog_def)
  have "doRequest badJsonEnv (scopeURL (Handle ?d)) ?A ?st3 = (?st4, Inr ''<html>'')"
    by (simp add: doRequest_def badJsonEnv_def scriptedEnv_def respond_def newRequest_def
        programsURL_def scopeURL_def itoa.simps digit_def prog_def)
  then have r: "doRequestWithRetry badJsonEnv (scopeURL (Handle ?d)) ?A ?st3
                  = (?st4, Inr ''<html>'')"
    by (rule retry_first_success)
  have u: "unmarshalScope badJsonEnv ''<html>'' = UnmarshalError ?cause []"
    by (simp add: badJsonEnv_def scriptedEnv_def)
  from r u have "\<exists>body cause pg.
               doRequestWithRetry badJsonEnv (scopeURL (Handle ?d)) ?A ?st3 = (?st4, Inr body)
               \<and> unmarshalScope badJsonEnv body = UnmarshalError cause pg
               \<and> ''JSON decode failed: '' @ ?cause = ''JSON decode failed: '' @ cause"
    by blast
  then have fail: "doRequestWithRetry badJsonEnv (scopeURL (Handle ?d)) ?A ?st3
            = (?st4, Inl (''JSON decode failed: '' @ ?cause))
         \<or> (\<exists>body cause pg.
               doRequestWithRetry badJsonEnv (scopeURL (Handle ?d)) ?A ?st3 = (?st4, Inr body)
               \<and> unmarshalScope badJsonEnv body = UnmarshalError cause pg
               \<and> ''JSON decode failed: '' @ ?cause = ''JSON decode failed: '' @ cause)"
    by (rule disjI2)
  from Fetch_aborts_on_scope_failure [OF x pg sc ob st3 fail, of 0 0]
  have pages: "fetchPages 1 badJsonEnv ?A 1 0 []
          = Some (?st4, 0, Some (''handle acme failed: JSON decode failed: '' @ ?cause))"
    by (simp add: prog_def del: fetchPages.simps)
  have "Fetch 1 badJsonEnv ''user:key'' [] = fetchPages 1 badJsonEnv ?A 1 0 []"
    by (simp add: Fetch_def a del: EncodeToString.simps fetchPages.simps)
  with pages show "Fetch 1 badJsonEnv ''user:key'' []
     = Some ([Do (newRequest (programsURL 1) ?A),
              Stdout (''Procesando: acme'' @ [CHR 0x0A]),
              Do (newRequest (scopeURL ''acme'') ?A)],
             0, Some (''handle acme failed: JSON decode failed: ''
                        @ ''invalid character < looking for beginning of value''))"
    by simp
qed

end
